theory Spec2Isabelle
  imports Main "HOL-Library.Word" "HOL-Library.Char_ord" "HOL-Library.List_Lexorder"
begin

unbundle bit_operations_syntax

section \<open>Go values\<close>

text \<open>
  Bytes are \<open>8 word\<close>, \<open>uint16\<close> is \<open>16 word\<close>, \<open>uint64\<close> and the 64-bit \<open>int\<close>
  are \<open>64 word\<close> (an \<open>int\<close> is read with \<open>sint\<close>, compared with \<open><s\<close>; a conversion
  between \<open>uint64\<close> and \<open>int\<close> keeps the bits). Lengths of slices are \<open>nat\<close>.
  A Go panic is a value of type \<open>panic\<close>, returned on the left of a sum.
\<close>

type_synonym byte = "8 word"
type_synonym uint16 = "16 word"
type_synonym uint64 = "64 word"
type_synonym go_int = "64 word"

datatype panic = AssertionFailed | IndexOutOfRange | SliceBoundsOutOfRange

section \<open>Address-map messages (go/store/prolly/message/address_map.go)\<close>

subsection \<open>The message and its helpers\<close>

text \<open>
  Modelled from the spec: the generated flatbuffers table \<open>serial.AddressMap\<close> is not part
  of the sources at hand. The message is represented by the fields of its root table:
  packed key bytes, the vector of 2-byte key offsets, packed addresses, the optional
  varint region of subtree counts, the total tree count and the level byte. A field that
  was never added reads as its default (no bytes, zero). The message prefix and the file
  identifier are not read by any accessor below and are left out.
\<close>

record AddressMap =
  KeyItems :: "byte list"
  KeyOffsets :: "uint16 list"
  AddressArray :: "byte list"
  SubtreeCounts :: "byte list option"
  TreeCount :: uint64
  TreeLevel :: byte

definition AddressMapStart :: AddressMap where
  "AddressMapStart =
     \<lparr>KeyItems = [], KeyOffsets = [], AddressArray = [], SubtreeCounts = None,
      TreeCount = 0, TreeLevel = 0\<rparr>"

definition KeyItemsBytes :: "AddressMap \<Rightarrow> byte list" where
  "KeyItemsBytes am = KeyItems am"

definition KeyOffsetsLength :: "AddressMap \<Rightarrow> int" where
  "KeyOffsetsLength am = int (length (KeyOffsets am))"

definition AddressArrayBytes :: "AddressMap \<Rightarrow> byte list" where
  "AddressArrayBytes am = AddressArray am"

definition SubtreeCountsBytes :: "AddressMap \<Rightarrow> byte list" where
  "SubtreeCountsBytes am = (case SubtreeCounts am of None \<Rightarrow> [] | Some bs \<Rightarrow> bs)"

text \<open>
  Modelled from the spec: the hash size and the per-entry length of the address array
  (\<open>hash.ByteLen\<close>, \<open>addrSize\<close>) are declared outside the sources at hand; the spec
  gives a 20-byte hash and a per-entry length equal to the hash size.
\<close>

definition ByteLen :: nat where
  "ByteLen = 20"

definition addrSize :: nat where
  "addrSize = ByteLen"

definition uint16Size :: nat where
  "uint16Size = 2"

definition MaxVarintLen64 :: nat where
  "MaxVarintLen64 = 10"

text \<open>
  Modelled from the spec: \<open>assertTrue\<close> is not part of the sources at hand; a failed
  assertion panics.
\<close>

definition assertTrue :: "bool \<Rightarrow> panic + unit" where
  "assertTrue b = (if b then Inr () else Inl AssertionFailed)"

text \<open>
  Modelled from the spec: \<open>writeItemBytes\<close> is not part of the sources at hand. The
  item-bytes region is the concatenation of the items, without separators.
\<close>

definition writeItemBytes :: "byte list list \<Rightarrow> nat \<Rightarrow> byte list" where
  "writeItemBytes items sumSz = concat items"

text \<open>
  Modelled from the spec: \<open>writeItemOffsets\<close> is not part of the sources at hand. The
  offsets vector holds \<open>len(items)+1\<close> cumulative byte offsets, each a 2-byte unsigned
  integer: the first is 0, the last is the size of the region.
\<close>

fun offsetsFrom :: "nat \<Rightarrow> byte list list \<Rightarrow> uint16 list" where
  "offsetsFrom off [] = [of_nat off]"
| "offsetsFrom off (item # items) = of_nat off # offsetsFrom (off + length item) items"

definition writeItemOffsets :: "byte list list \<Rightarrow> nat \<Rightarrow> uint16 list" where
  "writeItemOffsets items sumSz = offsetsFrom 0 items"

text \<open>
  Go's \<open>binary.PutUvarint\<close>: seven bits per byte, least significant group first, the high
  bit set on every byte but the last.
\<close>

function PutUvarint :: "uint64 \<Rightarrow> byte list" where
  "PutUvarint x =
     (if 0x80 \<le> x then (ucast x OR 0x80) # PutUvarint (drop_bit 7 x) else [ucast x])"
  by pat_completeness auto
termination
proof (relation "measure unat")
  show "wf (measure unat)" by simp
next
  fix x :: uint64
  assume "0x80 \<le> x"
  then have "0 < unat x"
    by (simp add: word_le_nat_alt)
  then have "unat x div 2 ^ 7 < unat x"
    by simp
  then show "(drop_bit 7 x, x) \<in> measure unat"
    by (simp add: drop_bit_eq_div unat_div)
qed

declare PutUvarint.simps [simp del]

text \<open>
  Go's \<open>binary.Uvarint\<close>: the value and the number of bytes read; \<open>(0, 0)\<close> when the
  buffer ends early, \<open>(0, -(i+1))\<close> on a value that does not fit 64 bits.
\<close>

fun UvarintLoop :: "uint64 \<Rightarrow> nat \<Rightarrow> nat \<Rightarrow> byte list \<Rightarrow> uint64 \<times> int" where
  "UvarintLoop x s i [] = (0, 0)"
| "UvarintLoop x s i (b # buf) =
     (if i = MaxVarintLen64 then (0, - (int i + 1))
      else if b < 0x80 then
        (if i = MaxVarintLen64 - 1 \<and> 1 < b then (0, - (int i + 1))
         else (x OR push_bit s (ucast b), int i + 1))
      else UvarintLoop (x OR push_bit s (ucast (b AND 0x7f))) (s + 7) (i + 1) buf)"

definition Uvarint :: "byte list \<Rightarrow> uint64 \<times> int" where
  "Uvarint buf = UvarintLoop 0 0 0 buf"

text \<open>
  Modelled from the spec: \<open>writeCountArray\<close>, \<open>sumSubtrees\<close> and \<open>decodeVarints\<close> are not
  part of the sources at hand. The subtree counts are varint-encoded one after the
  other; their sum is taken in \<open>uint64\<close>; decoding reads one varint per expected count
  and asserts that the region is used up.
\<close>

definition writeCountArray :: "uint64 list \<Rightarrow> byte list" where
  "writeCountArray counts = concat (map PutUvarint counts)"

definition sumSubtrees :: "uint64 list \<Rightarrow> uint64" where
  "sumSubtrees subtrees = foldl (+) 0 subtrees"

fun decodeVarints :: "byte list \<Rightarrow> nat \<Rightarrow> panic + uint64 list" where
  "decodeVarints buf 0 = (case assertTrue (buf = []) of Inl p \<Rightarrow> Inl p | Inr _ \<Rightarrow> Inr [])"
| "decodeVarints buf (Suc cnt) =
     (case Uvarint buf of
        (v, n) \<Rightarrow>
          if n < 0 then Inl SliceBoundsOutOfRange
          else (case decodeVarints (drop (nat n) buf) cnt of
                  Inl p \<Rightarrow> Inl p
                | Inr vs \<Rightarrow> Inr (v # vs)))"

text \<open>
  Modelled from the spec: \<open>ItemArray\<close> and \<open>offsetsForAddressArray\<close> are not part of the
  sources at hand. An item array is a byte region with the raw little-endian bytes of
  its offsets; item \<open>i\<close> is \<open>Items[offs[i]:offs[i+1]]\<close>. Slicing out of bounds panics.
\<close>

record ItemArray =
  Items :: "byte list"
  Offs :: "byte list"

definition writeUint16 :: "uint16 \<Rightarrow> byte list" where
  "writeUint16 w = [ucast w, ucast (drop_bit 8 w)]"

definition readUint16 :: "byte list \<Rightarrow> panic + uint16" where
  "readUint16 bs =
     (case bs of
        lo # hi # _ \<Rightarrow> Inr (ucast lo OR push_bit 8 (ucast hi))
      | _ \<Rightarrow> Inl IndexOutOfRange)"

definition subslice :: "'a list \<Rightarrow> nat \<Rightarrow> nat \<Rightarrow> panic + 'a list" where
  "subslice xs lo hi =
     (if lo \<le> hi \<and> hi \<le> length xs then Inr (take (hi - lo) (drop lo xs))
      else Inl SliceBoundsOutOfRange)"

definition Len :: "ItemArray \<Rightarrow> int" where
  "Len arr = int (length (Offs arr)) div 2 - 1"

definition GetItem :: "ItemArray \<Rightarrow> nat \<Rightarrow> panic + byte list" where
  "GetItem arr i =
     (let pos = i * 2 in
      case subslice (Offs arr) pos (pos + 2) of
        Inl p \<Rightarrow> Inl p
      | Inr lo \<Rightarrow>
          (case subslice (Offs arr) (pos + 2) (pos + 4) of
             Inl p \<Rightarrow> Inl p
           | Inr hi \<Rightarrow>
               (case (readUint16 lo, readUint16 hi) of
                  (Inr start, Inr stop) \<Rightarrow> subslice (Items arr) (unat start) (unat stop)
                | (Inl p, _) \<Rightarrow> Inl p
                | (_, Inl p) \<Rightarrow> Inl p)))"

fun addressOffsets :: "uint16 \<Rightarrow> nat \<Rightarrow> byte list" where
  "addressOffsets pos 0 = writeUint16 pos"
| "addressOffsets pos (Suc cnt) = writeUint16 pos @ addressOffsets (pos + of_nat addrSize) cnt"

definition offsetsForAddressArray :: "byte list \<Rightarrow> byte list" where
  "offsetsForAddressArray arr = addressOffsets 0 (length arr div addrSize)"

subsection \<open>Serialize and the accessors\<close>

text \<open>
  \<open>serial.MessagePrefixSz\<close> is declared outside the sources at hand; it only enters the
  size estimate and is a parameter, \<open>prefixSz\<close>.
\<close>

definition estimateAddressMapSize ::
  "nat \<Rightarrow> byte list list \<Rightarrow> byte list list \<Rightarrow> uint64 list \<Rightarrow> panic + (nat \<times> nat \<times> nat)" where
  "estimateAddressMapSize prefixSz keys addresses subtrees =
     (case assertTrue (length keys = length addresses) of
        Inl p \<Rightarrow> Inl p
      | Inr _ \<Rightarrow>
          (let keySz = sum_list (map length keys);
               addrSz = sum_list (map length addresses);
               totalSz = keySz + addrSz
                 + length keys * uint16Size
                 + length subtrees * MaxVarintLen64
                 + (8 + 1 + 1 + 1)
                 + 72
                 + prefixSz
           in Inr (keySz, addrSz, totalSz)))"

definition Serialize ::
  "nat \<Rightarrow> byte list list \<Rightarrow> byte list list \<Rightarrow> uint64 list \<Rightarrow> go_int \<Rightarrow> panic + AddressMap" where
  "Serialize prefixSz keys addrs subtrees level =
     (case estimateAddressMapSize prefixSz keys addrs subtrees of
        Inl p \<Rightarrow> Inl p
      | Inr (keySz, addrSz, totalSz) \<Rightarrow>
          (let keyArr = writeItemBytes keys keySz;
               keyOffs = writeItemOffsets keys keySz;
               addrArr = writeItemBytes addrs addrSz;
               cardArr = (if 0 <s level then Some (writeCountArray subtrees) else None);
               b = AddressMapStart;
               b = b\<lparr>KeyItems := keyArr\<rparr>;
               b = b\<lparr>KeyOffsets := keyOffs\<rparr>;
               b = b\<lparr>AddressArray := addrArr\<rparr>;
               b = (if 0 <s level
                    then b\<lparr>SubtreeCounts := cardArr, TreeCount := sumSubtrees subtrees\<rparr>
                    else b\<lparr>TreeCount := of_nat (length keys)\<rparr>);
               b = b\<lparr>TreeLevel := ucast level\<rparr>
           in Inr b))"

text \<open>
  \<open>getAddressMapKeyOffsets\<close> returns the bytes of the offsets vector as they lie in the
  buffer, \<open>KeyOffsetsLength * 2\<close> of them: each offset as two bytes, low byte first.
\<close>

definition getAddressMapKeyOffsets :: "AddressMap \<Rightarrow> byte list" where
  "getAddressMapKeyOffsets pm = concat (map writeUint16 (KeyOffsets pm))"

definition getAddressMapKeys :: "AddressMap \<Rightarrow> ItemArray" where
  "getAddressMapKeys msg = \<lparr>Items = KeyItemsBytes msg, Offs = getAddressMapKeyOffsets msg\<rparr>"

definition getAddressMapValues :: "AddressMap \<Rightarrow> ItemArray" where
  "getAddressMapValues msg =
     (let items = AddressArrayBytes msg in \<lparr>Items = items, Offs = offsetsForAddressArray items\<rparr>)"

definition getAddressMapCount :: "AddressMap \<Rightarrow> uint16" where
  "getAddressMapCount msg = word_of_int (KeyOffsetsLength msg - 1)"

definition getAddressMapTreeLevel :: "AddressMap \<Rightarrow> go_int" where
  "getAddressMapTreeLevel msg = ucast (TreeLevel msg)"

definition getAddressMapTreeCount :: "AddressMap \<Rightarrow> go_int" where
  "getAddressMapTreeCount msg = TreeCount msg"

definition getAddressMapSubtrees :: "AddressMap \<Rightarrow> panic + uint64 list" where
  "getAddressMapSubtrees msg =
     decodeVarints (SubtreeCountsBytes msg) (unat (getAddressMapCount msg))"

text \<open>
  Modelled from the spec: \<open>hash.New\<close> is not part of the sources at hand; it builds a
  hash from exactly \<open>ByteLen\<close> bytes and panics on any other length.
\<close>

definition hash_New :: "byte list \<Rightarrow> panic + byte list" where
  "hash_New bs = (case assertTrue (length bs = ByteLen) of Inl p \<Rightarrow> Inl p | Inr _ \<Rightarrow> Inr bs)"

text \<open>
  The callback of \<open>walkAddressMapAddresses\<close> is a Go closure: it may read and change
  state of its own, \<open>'s\<close>, and returns an error (\<open>Some e\<close>) or \<open>nil\<close> (\<open>None\<close>).
\<close>

function walkLoop ::
  "(byte list \<Rightarrow> 's \<Rightarrow> 'e option \<times> 's) \<Rightarrow> byte list \<Rightarrow> nat \<Rightarrow> 's \<Rightarrow> (panic + 'e option) \<times> 's" where
  "walkLoop cb arr i s =
     (if i < length arr div ByteLen then
        (case subslice arr (i * addrSize) ((i + 1) * addrSize) of
           Inl p \<Rightarrow> (Inl p, s)
         | Inr bs \<Rightarrow>
             (case hash_New bs of
                Inl p \<Rightarrow> (Inl p, s)
              | Inr addr \<Rightarrow>
                  (case cb addr s of
                     (Some err, s') \<Rightarrow> (Inr (Some err), s')
                   | (None, s') \<Rightarrow> walkLoop cb arr (i + 1) s')))
      else (Inr None, s))"
  by pat_completeness auto
termination
  by (relation "measure (\<lambda>(cb, arr, i, s). length arr div ByteLen - i)") auto

declare walkLoop.simps [simp del]

definition walkAddressMapAddresses ::
  "AddressMap \<Rightarrow> (byte list \<Rightarrow> 's \<Rightarrow> 'e option \<times> 's) \<Rightarrow> 's \<Rightarrow> (panic + 'e option) \<times> 's" where
  "walkAddressMapAddresses msg cb s = walkLoop cb (AddressArrayBytes msg) 0 s"

section \<open>Table partitions (package sqle)\<close>

text \<open>
  Modelled from the spec: \<open>durable.Index\<close> is declared outside the sources at hand. The
  functions below observe a row tree only through its cached row count, so an index is
  represented by that count; it is empty when the count is zero.
\<close>

datatype Index = Index (Count: uint64)

definition Empty :: "Index \<Rightarrow> bool" where
  "Empty rows = (Count rows = 0)"

definition MaxRowsPerPartition :: uint64 where
  "MaxRowsPerPartition = 32 * 1024"

text \<open>
  \<open>partitionMultiplier\<close> is the untyped constant 2.0; in
  \<open>partitionMultiplier*runtime.NumCPU()\<close> it is converted to \<open>int\<close>. The number of CPUs
  is a value of the run and a parameter, \<open>ncpu\<close>.
\<close>

definition partitionMultiplier :: go_int where
  "partitionMultiplier = 2"

record doltTablePartition =
  p_start :: uint64
  p_end :: uint64
  p_rowData :: "Index option"

definition zeroPartition :: doltTablePartition where
  "zeroPartition = \<lparr>p_start = 0, p_end = 0, p_rowData = None\<rparr>"

function fillPartitions ::
  "Index \<Rightarrow> uint64 \<Rightarrow> uint64 \<Rightarrow> uint64 \<Rightarrow> doltTablePartition list \<Rightarrow> panic + doltTablePartition list" where
  "fillPartitions rows itemsPerPartition numPartitions i partitions =
     (if i < numPartitions - 1 then
        (if unat i < length partitions then
           fillPartitions rows itemsPerPartition numPartitions (i + 1)
             (partitions[unat i :=
                \<lparr>p_start = i * itemsPerPartition,
                 p_end = (i + 1) * itemsPerPartition,
                 p_rowData = Some rows\<rparr>])
         else Inl IndexOutOfRange)
      else Inr partitions)"
  by pat_completeness auto
termination
proof (relation "measure (\<lambda>(rows, ipp, n, i, ps). unat (n - 1) - unat i)")
  show "wf (measure (\<lambda>(rows, ipp, n, i, ps). unat (n - 1) - unat i))" by simp
next
  fix rows :: Index and ipp n i :: uint64 and ps :: "doltTablePartition list"
  assume "i < n - 1"
  then have lt: "unat i < unat (n - 1)"
    by (simp add: word_less_nat_alt)
  moreover have "unat (n - 1) < 2 ^ 64"
    using unsigned_less [of "n - 1"] by simp
  ultimately have "unat i + 1 < 2 ^ 64"
    by simp
  then have "unat (i + 1) = Suc (unat i)"
    by (simp add: unat_word_ariths)
  with lt show "((rows, ipp, n, i + 1, ps[unat i := \<lparr>p_start = i * ipp, p_end = (i + 1) * ipp,
      p_rowData = Some rows\<rparr>]), (rows, ipp, n, i, ps))
    \<in> measure (\<lambda>(rows, ipp, n, i, ps). unat (n - 1) - unat i)"
    by simp
qed

declare fillPartitions.simps [simp del]

definition partitionsFromTableRows :: "go_int \<Rightarrow> Index \<Rightarrow> panic + doltTablePartition list" where
  "partitionsFromTableRows ncpu rows =
     (let numElements = Count rows;
          itemsPerPartition = MaxRowsPerPartition;
          numPartitions = (numElements div itemsPerPartition) + 1;
          (itemsPerPartition, numPartitions) =
            (if numPartitions < partitionMultiplier * ncpu then
               (let itemsPerPartition = numElements div (partitionMultiplier * ncpu) in
                if itemsPerPartition = 0 then (numElements, 1)
                else (itemsPerPartition, (numElements div itemsPerPartition) + 1))
             else (itemsPerPartition, numPartitions));
          partitions = replicate (unat numPartitions) zeroPartition
      in case fillPartitions rows itemsPerPartition numPartitions 0 partitions of
           Inl p \<Rightarrow> Inl p
         | Inr partitions \<Rightarrow>
             if unat (numPartitions - 1) < length partitions then
               Inr (partitions[unat (numPartitions - 1) :=
                 \<lparr>p_start = (numPartitions - 1) * itemsPerPartition,
                  p_end = numElements,
                  p_rowData = Some rows\<rparr>])
             else Inl IndexOutOfRange)"

definition partitionsFromRows :: "go_int \<Rightarrow> Index \<Rightarrow> panic + doltTablePartition list" where
  "partitionsFromRows ncpu rows =
     (if Empty rows then Inr [\<lparr>p_start = 0, p_end = 0, p_rowData = Some rows\<rparr>]
      else partitionsFromTableRows ncpu rows)"

subsection \<open>The partition iterator\<close>

text \<open>
  The counter \<open>i\<close> starts at 0 and only grows, one step at a time, while it is below
  the number of partitions: it is a \<open>nat\<close>. The mutex serialises callers; the model is
  sequential.
\<close>

datatype iter_error = EOF

record doltTablePartitionIter =
  it_i :: nat
  it_rowData :: Index
  it_partitions :: "doltTablePartition list"

definition newDoltTablePartitionIter ::
  "Index \<Rightarrow> doltTablePartition list \<Rightarrow> doltTablePartitionIter" where
  "newDoltTablePartitionIter rowData partitions =
     \<lparr>it_i = 0, it_rowData = rowData, it_partitions = partitions\<rparr>"

definition Close :: "doltTablePartitionIter \<Rightarrow> iter_error option \<times> doltTablePartitionIter" where
  "Close itr = (None, itr)"

definition Next ::
  "doltTablePartitionIter \<Rightarrow> (iter_error + doltTablePartition) \<times> doltTablePartitionIter" where
  "Next itr =
     (if it_i itr \<ge> length (it_partitions itr) then (Inl EOF, itr)
      else (let partition = it_partitions itr ! it_i itr;
                itr = itr\<lparr>it_i := it_i itr + 1\<rparr>
            in (Inr partition, itr)))"

section \<open>Tables and roots\<close>

text \<open>
  Modelled from the spec: \<open>schema.Schema\<close>, \<open>doltdb.Table\<close>, \<open>doltdb.RootValue\<close>, the
  index set and the session's database handle are declared outside the sources at hand.
  A schema lists its columns and the names of its indexes; a table is a row tree, a map
  from index names to index trees, a schema and an optional auto-increment value; a root
  maps table names to tables, in the order the names are listed. Every call that reaches
  the chunk store can fail: the outcomes of the calls still to come are the list
  \<open>faults\<close> (\<open>True\<close>: the next call fails), consumed one per call; when the list is used
  up, calls succeed.
\<close>

datatype error = StorageFailure | TableNotFound string

type_synonym faults = "bool list"

definition storeCall :: "'a \<Rightarrow> faults \<Rightarrow> (error + 'a) \<times> faults" where
  "storeCall v fs =
     (case fs of
        [] \<Rightarrow> (Inr v, [])
      | f # fs' \<Rightarrow> (if f then Inl StorageFailure else Inr v, fs'))"

record Schema =
  sch_columns :: "string list"
  sch_indexes :: "string list"

definition AllIndexes :: "Schema \<Rightarrow> string list" where
  "AllIndexes sch = sch_indexes sch"

record Table =
  t_schema :: Schema
  t_rowData :: Index
  t_indexSet :: "string \<rightharpoonup> Index"
  t_autoInc :: "uint64 option"

type_synonym RootValue = "(string \<times> Table) list"

definition NewEmptyIndex :: "Schema \<Rightarrow> faults \<Rightarrow> (error + Index) \<times> faults" where
  "NewEmptyIndex sch fs = storeCall (Index 0) fs"

definition GetSchema :: "Table \<Rightarrow> faults \<Rightarrow> (error + Schema) \<times> faults" where
  "GetSchema table fs = storeCall (t_schema table) fs"

definition GetRowData :: "Table \<Rightarrow> faults \<Rightarrow> (error + Index) \<times> faults" where
  "GetRowData table fs = storeCall (t_rowData table) fs"

definition GetIndexSet :: "Table \<Rightarrow> faults \<Rightarrow> (error + (string \<rightharpoonup> Index)) \<times> faults" where
  "GetIndexSet table fs = storeCall (t_indexSet table) fs"

definition PutIndex ::
  "(string \<rightharpoonup> Index) \<Rightarrow> string \<Rightarrow> Index \<Rightarrow> faults \<Rightarrow> (error + (string \<rightharpoonup> Index)) \<times> faults" where
  "PutIndex idxSet name idx fs = storeCall (idxSet(name \<mapsto> idx)) fs"

definition NewTable ::
  "Schema \<Rightarrow> Index \<Rightarrow> (string \<rightharpoonup> Index) \<Rightarrow> uint64 option \<Rightarrow> faults \<Rightarrow> (error + Table) \<times> faults" where
  "NewTable sch rows indexes autoIncVal fs =
     storeCall \<lparr>t_schema = sch, t_rowData = rows, t_indexSet = indexes, t_autoInc = autoIncVal\<rparr> fs"

definition GetTable :: "RootValue \<Rightarrow> string \<Rightarrow> faults \<Rightarrow> (error + Table option) \<times> faults" where
  "GetTable root name fs = storeCall (map_of root name) fs"

fun putEntry :: "string \<Rightarrow> Table \<Rightarrow> RootValue \<Rightarrow> RootValue" where
  "putEntry name table [] = [(name, table)]"
| "putEntry name table ((n, t) # root) =
     (if n = name then (name, table) # root else (n, t) # putEntry name table root)"

definition PutTable :: "RootValue \<Rightarrow> string \<Rightarrow> Table \<Rightarrow> faults \<Rightarrow> (error + RootValue) \<times> faults" where
  "PutTable root name table fs = storeCall (putEntry name table root) fs"

definition GetTableNames :: "RootValue \<Rightarrow> faults \<Rightarrow> (error + string list) \<times> faults" where
  "GetTableNames root fs = storeCall (map fst root) fs"

subsection \<open>Truncate (package sqle)\<close>

text \<open>
  The state of a call: the outcomes of the store calls to come and the root held by the
  session's database (\<open>db.GetRoot\<close>, \<open>db.SetRoot\<close>).
\<close>

record session =
  s_faults :: faults
  s_root :: RootValue

record WritableDoltTable =
  tableName :: string
  lockedToRoot :: "RootValue option"

definition db_GetRoot :: "session \<Rightarrow> (error + RootValue) \<times> session" where
  "db_GetRoot st =
     (case storeCall (s_root st) (s_faults st) of (r, fs) \<Rightarrow> (r, st\<lparr>s_faults := fs\<rparr>))"

definition db_SetRoot :: "RootValue \<Rightarrow> session \<Rightarrow> error option \<times> session" where
  "db_SetRoot newRoot st =
     (case storeCall () (s_faults st) of
        (Inl e, fs) \<Rightarrow> (Some e, st\<lparr>s_faults := fs\<rparr>)
      | (Inr _, fs) \<Rightarrow> (None, st\<lparr>s_faults := fs, s_root := newRoot\<rparr>))"

definition getRoot :: "WritableDoltTable \<Rightarrow> session \<Rightarrow> (error + RootValue) \<times> session" where
  "getRoot t st = db_GetRoot st"

definition setRoot :: "WritableDoltTable \<Rightarrow> RootValue \<Rightarrow> session \<Rightarrow> error option \<times> session" where
  "setRoot t newRoot st = db_SetRoot newRoot st"

definition workingRoot :: "WritableDoltTable \<Rightarrow> session \<Rightarrow> (error + RootValue) \<times> session" where
  "workingRoot t st =
     (case lockedToRoot t of
        None \<Rightarrow> getRoot t st
      | Some root \<Rightarrow> (Inr root, st))"

definition DoltTable :: "WritableDoltTable \<Rightarrow> session \<Rightarrow> (error + Table) \<times> session" where
  "DoltTable t st =
     (case workingRoot t st of
        (Inl err, st) \<Rightarrow> (Inl err, st)
      | (Inr root, st) \<Rightarrow>
          (case GetTable root (tableName t) (s_faults st) of
             (Inl err, fs) \<Rightarrow> (Inl err, st\<lparr>s_faults := fs\<rparr>)
           | (Inr None, fs) \<Rightarrow> (Inl (TableNotFound (tableName t)), st\<lparr>s_faults := fs\<rparr>)
           | (Inr (Some table), fs) \<Rightarrow> (Inr table, st\<lparr>s_faults := fs\<rparr>)))"

fun putIndexes ::
  "Index \<Rightarrow> string list \<Rightarrow> (string \<rightharpoonup> Index) \<Rightarrow> faults \<Rightarrow> (error + (string \<rightharpoonup> Index)) \<times> faults" where
  "putIndexes emptyIdx [] idxSet fs = (Inr idxSet, fs)"
| "putIndexes emptyIdx (idx # idxs) idxSet fs =
     (case PutIndex idxSet idx emptyIdx fs of
        (Inl err, fs) \<Rightarrow> (Inl err, fs)
      | (Inr idxSet, fs) \<Rightarrow> putIndexes emptyIdx idxs idxSet fs)"

definition truncate :: "Table \<Rightarrow> Schema \<Rightarrow> faults \<Rightarrow> (error + Table) \<times> faults" where
  "truncate table sch fs =
     (case NewEmptyIndex sch fs of
        (Inl err, fs) \<Rightarrow> (Inl err, fs)
      | (Inr emptyIdx, fs) \<Rightarrow>
          (case GetIndexSet table fs of
             (Inl err, fs) \<Rightarrow> (Inl err, fs)
           | (Inr idxSet, fs) \<Rightarrow>
               (case putIndexes emptyIdx (AllIndexes sch) idxSet fs of
                  (Inl err, fs) \<Rightarrow> (Inl err, fs)
                | (Inr idxSet, fs) \<Rightarrow> NewTable sch emptyIdx idxSet None fs)))"

definition Truncate :: "WritableDoltTable \<Rightarrow> session \<Rightarrow> (error + go_int) \<times> session" where
  "Truncate t st =
     (case DoltTable t st of
        (Inl err, st) \<Rightarrow> (Inl err, st)
      | (Inr table, st) \<Rightarrow>
     (case GetSchema table (s_faults st) of
        (Inl err, fs) \<Rightarrow> (Inl err, st\<lparr>s_faults := fs\<rparr>)
      | (Inr sch, fs) \<Rightarrow>
     (case GetRowData table fs of
        (Inl err, fs) \<Rightarrow> (Inl err, st\<lparr>s_faults := fs\<rparr>)
      | (Inr rowData, fs) \<Rightarrow>
     (let numOfRows = Count rowData in
      case truncate table sch fs of
        (Inl err, fs) \<Rightarrow> (Inl err, st\<lparr>s_faults := fs\<rparr>)
      | (Inr newTable, fs) \<Rightarrow>
     (case getRoot t (st\<lparr>s_faults := fs\<rparr>) of
        (Inl err, st) \<Rightarrow> (Inl err, st)
      | (Inr root, st) \<Rightarrow>
     (case PutTable root (tableName t) newTable (s_faults st) of
        (Inl err, fs) \<Rightarrow> (Inl err, st\<lparr>s_faults := fs\<rparr>)
      | (Inr newRoot, fs) \<Rightarrow>
     (case setRoot t newRoot (st\<lparr>s_faults := fs\<rparr>) of
        (Some err, st) \<Rightarrow> (Inl err, st)
      | (None, st) \<Rightarrow> (Inr numOfRows, st))))))))"

subsection \<open>System table names (package doltdb)\<close>

definition DoltNamespace :: string where
  "DoltNamespace = ''dolt''"

definition DocTableName :: string where
  "DocTableName = ''dolt_docs''"

definition LogTableName :: string where
  "LogTableName = ''dolt_log''"

definition TableOfTablesInConflictName :: string where
  "TableOfTablesInConflictName = ''dolt_conflicts''"

definition TableOfTablesWithViolationsName :: string where
  "TableOfTablesWithViolationsName = ''dolt_constraint_violations''"

definition BranchesTableName :: string where
  "BranchesTableName = ''dolt_branches''"

definition RemotesTableName :: string where
  "RemotesTableName = ''dolt_remotes''"

definition CommitsTableName :: string where
  "CommitsTableName = ''dolt_commits''"

definition CommitAncestorsTableName :: string where
  "CommitAncestorsTableName = ''dolt_commit_ancestors''"

definition StatusTableName :: string where
  "StatusTableName = ''dolt_status''"

definition DoltHistoryTablePrefix :: string where
  "DoltHistoryTablePrefix = ''dolt_history_''"

definition DoltDiffTablePrefix :: string where
  "DoltDiffTablePrefix = ''dolt_diff_''"

definition DoltCommitDiffTablePrefix :: string where
  "DoltCommitDiffTablePrefix = ''dolt_commit_diff_''"

definition DoltConfTablePrefix :: string where
  "DoltConfTablePrefix = ''dolt_conflicts_''"

definition DoltConstViolTablePrefix :: string where
  "DoltConstViolTablePrefix = ''dolt_constraint_violations_''"

definition generatedSystemTables :: "string list" where
  "generatedSystemTables =
     [BranchesTableName, LogTableName, TableOfTablesInConflictName,
      TableOfTablesWithViolationsName, CommitsTableName, CommitAncestorsTableName,
      StatusTableName, RemotesTableName]"

definition generatedSystemTablePrefixes :: "string list" where
  "generatedSystemTablePrefixes =
     [DoltDiffTablePrefix, DoltCommitDiffTablePrefix, DoltHistoryTablePrefix,
      DoltConfTablePrefix, DoltConstViolTablePrefix]"

text \<open>
  \<open>strings.ToLower\<close> on the letters \<open>A\<close> to \<open>Z\<close>; no other code point lower-cases to a
  letter of the prefix tested by \<open>HasDoltPrefix\<close>.
\<close>

definition toLowerChar :: "char \<Rightarrow> char" where
  "toLowerChar c =
     (if CHR ''A'' \<le> c \<and> c \<le> CHR ''Z'' then char_of (of_char c + (32 :: nat)) else c)"

definition ToLower :: "string \<Rightarrow> string" where
  "ToLower s = map toLowerChar s"

definition HasPrefix :: "string \<Rightarrow> string \<Rightarrow> bool" where
  "HasPrefix s pre = (take (length pre) s = pre)"

definition HasDoltPrefix :: "string \<Rightarrow> bool" where
  "HasDoltPrefix s = HasPrefix (ToLower s) DoltNamespace"

text \<open>
  Modelled from the spec: the string set of \<open>utils/set\<close> and the helpers of
  \<open>utils/funcitr\<close> are not part of the sources at hand. A set is kept as a list without
  duplicates; \<open>AsSlice\<close> returns the members in some order, here the order of insertion.
\<close>

definition StrSet_Add :: "string list \<Rightarrow> string list \<Rightarrow> string list" where
  "StrSet_Add s items = foldl (\<lambda>acc x. if x \<in> set acc then acc else acc @ [x]) s items"

definition NewStrSet :: "string list \<Rightarrow> string list" where
  "NewStrSet items = StrSet_Add [] items"

definition AsSlice :: "string list \<Rightarrow> string list" where
  "AsSlice s = s"

definition FilterStrings :: "string list \<Rightarrow> (string \<Rightarrow> bool) \<Rightarrow> string list" where
  "FilterStrings xs f = filter f xs"

definition MapStrings :: "string list \<Rightarrow> (string \<Rightarrow> string) \<Rightarrow> string list" where
  "MapStrings xs f = map f xs"

definition GetNonSystemTableNames :: "RootValue \<Rightarrow> faults \<Rightarrow> (error + string list) \<times> faults" where
  "GetNonSystemTableNames root fs =
     (case GetTableNames root fs of
        (Inl err, fs) \<Rightarrow> (Inl err, fs)
      | (Inr tn, fs) \<Rightarrow>
          (let tn = FilterStrings tn (\<lambda>n. \<not> HasDoltPrefix n) in (Inr (sort tn), fs)))"

definition GetPersistedSystemTables :: "RootValue \<Rightarrow> faults \<Rightarrow> (error + string list) \<times> faults" where
  "GetPersistedSystemTables root fs =
     (case GetTableNames root fs of
        (Inl err, fs) \<Rightarrow> (Inl err, fs)
      | (Inr tn, fs) \<Rightarrow> (Inr (FilterStrings (sort tn) HasDoltPrefix), fs))"

definition GetGeneratedSystemTables :: "RootValue \<Rightarrow> faults \<Rightarrow> (error + string list) \<times> faults" where
  "GetGeneratedSystemTables root fs =
     (let s = NewStrSet generatedSystemTables in
      case GetTableNames root fs of
        (Inl err, fs) \<Rightarrow> (Inl err, fs)
      | (Inr tn, fs) \<Rightarrow>
          (let s = foldl (\<lambda>s pre. StrSet_Add s (MapStrings tn (\<lambda>n. pre @ n))) s
                     generatedSystemTablePrefixes
           in (Inr (AsSlice s), fs)))"

text \<open>
  In \<open>GetSystemTableNames\<close> the body of the second \<open>if err != nil\<close> is empty: the
  function goes on with \<open>g\<close>, which is \<open>nil\<close> when the call failed.
\<close>

definition GetSystemTableNames :: "RootValue \<Rightarrow> faults \<Rightarrow> (error + string list) \<times> faults" where
  "GetSystemTableNames root fs =
     (case GetPersistedSystemTables root fs of
        (Inl err, fs) \<Rightarrow> (Inl err, fs)
      | (Inr p, fs) \<Rightarrow>
          (case GetGeneratedSystemTables root fs of
             (r, fs) \<Rightarrow>
               (let g = (case r of Inl err \<Rightarrow> [] | Inr g \<Rightarrow> g);
                    s = p @ g
                in (Inr (sort s), fs))))"

definition GetAllTableNames :: "RootValue \<Rightarrow> faults \<Rightarrow> (error + string list) \<times> faults" where
  "GetAllTableNames root fs =
     (case GetNonSystemTableNames root fs of
        (Inl err, fs) \<Rightarrow> (Inl err, fs)
      | (Inr n, fs) \<Rightarrow>
          (case GetSystemTableNames root fs of
             (Inl err, fs) \<Rightarrow> (Inl err, fs)
           | (Inr s, fs) \<Rightarrow> (Inr (n @ s), fs)))"

section \<open>Reference definitions used to state the properties\<close>

text \<open>
  \<open>nextN k\<close> calls \<open>Next\<close> \<open>k\<close> times and collects what the calls return; \<open>runCalls\<close>
  runs any sequence of \<open>Next\<close> and \<open>Close\<close> calls and collects what the \<open>Next\<close> calls
  return.
\<close>

fun nextN ::
  "nat \<Rightarrow> doltTablePartitionIter \<Rightarrow> (iter_error + doltTablePartition) list \<times> doltTablePartitionIter" where
  "nextN 0 itr = ([], itr)"
| "nextN (Suc n) itr =
     (case Next itr of (r, itr) \<Rightarrow> (case nextN n itr of (rs, itr) \<Rightarrow> (r # rs, itr)))"

datatype iter_call = CallNext | CallClose

fun runCalls ::
  "iter_call list \<Rightarrow> doltTablePartitionIter \<Rightarrow> (iter_error + doltTablePartition) list \<times> doltTablePartitionIter" where
  "runCalls [] itr = ([], itr)"
| "runCalls (CallNext # cs) itr =
     (case Next itr of (r, itr) \<Rightarrow> (case runCalls cs itr of (rs, itr) \<Rightarrow> (r # rs, itr)))"
| "runCalls (CallClose # cs) itr =
     (case Close itr of (_, itr) \<Rightarrow> runCalls cs itr)"

text \<open>
  The list that \<open>partitionsFromTableRows\<close> builds, written in closed form:
  \<open>fillAll\<close> is the loop and the last assignment; \<open>partitionPlan\<close> is the choice of
  \<open>itemsPerPartition\<close> and \<open>numPartitions\<close>; \<open>layout rows ipp q\<close> is \<open>q\<close> partitions of
  \<open>ipp\<close> rows followed by one that ends at the row count.
\<close>

definition fullPartition :: "Index \<Rightarrow> uint64 \<Rightarrow> uint64 \<Rightarrow> doltTablePartition" where
  "fullPartition rows ipp k = \<lparr>p_start = k * ipp, p_end = (k + 1) * ipp, p_rowData = Some rows\<rparr>"

definition lastPartition :: "Index \<Rightarrow> uint64 \<Rightarrow> uint64 \<Rightarrow> doltTablePartition" where
  "lastPartition rows ipp q = \<lparr>p_start = q * ipp, p_end = Count rows, p_rowData = Some rows\<rparr>"

definition layout :: "Index \<Rightarrow> uint64 \<Rightarrow> uint64 \<Rightarrow> doltTablePartition list" where
  "layout rows ipp q =
     map (\<lambda>k. fullPartition rows ipp (of_nat k)) [0 ..< unat q] @ [lastPartition rows ipp q]"

definition partitionPlan :: "go_int \<Rightarrow> uint64 \<Rightarrow> uint64 \<times> uint64" where
  "partitionPlan ncpu R =
     (if R div MaxRowsPerPartition + 1 < 2 * ncpu then
        (if R div (2 * ncpu) = 0 then (R, 1)
         else (R div (2 * ncpu), R div (R div (2 * ncpu)) + 1))
      else (MaxRowsPerPartition, R div MaxRowsPerPartition + 1))"

definition fillAll :: "Index \<Rightarrow> uint64 \<Rightarrow> uint64 \<Rightarrow> panic + doltTablePartition list" where
  "fillAll rows ipp n =
     (case fillPartitions rows ipp n 0 (replicate (unat n) zeroPartition) of
        Inl p \<Rightarrow> Inl p
      | Inr partitions \<Rightarrow>
          if unat (n - 1) < length partitions then
            Inr (partitions[unat (n - 1) :=
              \<lparr>p_start = (n - 1) * ipp, p_end = Count rows, p_rowData = Some rows\<rparr>])
          else Inl IndexOutOfRange)"

text \<open>
  The addresses stored in a message are the consecutive \<open>addrSize\<close>-byte pieces of its
  address array. \<open>visitEach\<close> is the walk in the spec's words: visit each address in
  order and stop at the first error. \<open>logging cb\<close> is the callback \<open>cb\<close> that also
  records, in its own state, each address it is called on.
\<close>

definition storedAddresses :: "AddressMap \<Rightarrow> byte list list" where
  "storedAddresses msg =
     map (\<lambda>i. take addrSize (drop (i * addrSize) (AddressArrayBytes msg)))
       [0 ..< length (AddressArrayBytes msg) div ByteLen]"

fun visitEach :: "(byte list \<Rightarrow> 's \<Rightarrow> 'e option \<times> 's) \<Rightarrow> byte list list \<Rightarrow> 's \<Rightarrow> 'e option \<times> 's" where
  "visitEach cb [] s = (None, s)"
| "visitEach cb (addr # addrs) s =
     (case cb addr s of
        (Some err, s') \<Rightarrow> (Some err, s')
      | (None, s') \<Rightarrow> visitEach cb addrs s')"

definition logging ::
  "(byte list \<Rightarrow> 's \<Rightarrow> 'e option \<times> 's) \<Rightarrow> byte list \<Rightarrow> 's \<times> byte list list \<Rightarrow> 'e option \<times> 's \<times> byte list list" where
  "logging cb addr st =
     (case st of (s, log) \<Rightarrow> (case cb addr s of (r, s') \<Rightarrow> (r, (s', log @ [addr]))))"

text \<open>
  All items of an item array, in order; the first panic, if an item cannot be read.
\<close>

fun collect :: "(panic + 'a) list \<Rightarrow> panic + 'a list" where
  "collect [] = Inr []"
| "collect (x # xs) =
     (case x of
        Inl p \<Rightarrow> Inl p
      | Inr v \<Rightarrow> (case collect xs of Inl p \<Rightarrow> Inl p | Inr vs \<Rightarrow> Inr (v # vs)))"

definition allItems :: "ItemArray \<Rightarrow> panic + byte list list" where
  "allItems arr = collect (map (GetItem arr) [0 ..< nat (Len arr)])"

text \<open>
  \<open>truncated table sch\<close> is the table that \<open>truncate\<close> builds when no call fails;
  \<open>rootOf t st\<close> is the root a table handle reads from: the root it is locked to, or
  else the session's root.
\<close>

definition truncated :: "Table \<Rightarrow> Schema \<Rightarrow> Table" where
  "truncated table sch =
     \<lparr>t_schema = sch, t_rowData = Index 0,
      t_indexSet = (\<lambda>n. if n \<in> set (AllIndexes sch) then Some (Index 0) else t_indexSet table n),
      t_autoInc = None\<rparr>"

definition rootOf :: "WritableDoltTable \<Rightarrow> session \<Rightarrow> RootValue" where
  "rootOf t st = (case lockedToRoot t of None \<Rightarrow> s_root st | Some root \<Rightarrow> root)"

section \<open>Properties of the address-map codec\<close>

text \<open>
  C9. \<open>estimateAddressMapSize\<close>, and through it \<open>Serialize\<close>, asserts that there are as
  many keys as addresses. With equally many, the assertion holds and \<open>Serialize\<close>
  returns a message; otherwise the assertion fails and no message is returned.
\<close>

theorem Serialize_precondition:
  "(length keys = length addrs \<longrightarrow> (\<exists>m. Serialize prefixSz keys addrs subtrees level = Inr m)) \<and>
   (length keys \<noteq> length addrs \<longrightarrow>
      estimateAddressMapSize prefixSz keys addrs subtrees = Inl AssertionFailed \<and>
      Serialize prefixSz keys addrs subtrees level = Inl AssertionFailed)"
  by (simp add: Serialize_def estimateAddressMapSize_def assertTrue_def Let_def)

theorem Serialize_precondition_witness:
  "(length [[1 :: byte]] = length [[2 :: byte]] \<and> (\<exists>m. Serialize 4 [[1]] [[2]] [] 0 = Inr m)) \<and>
   (length [[1 :: byte]] \<noteq> length ([] :: byte list list) \<and>
      estimateAddressMapSize 4 [[1]] [] [] = Inl AssertionFailed \<and>
      Serialize 4 [[1]] [] [] 0 = Inl AssertionFailed)"
  using Serialize_precondition [of "[[1]]" "[[2]]" 4 "[]" 0]
    Serialize_precondition [of "[[1]]" "[]" 4 "[]" 0]
  by simp

section \<open>Properties of the partition iterator\<close>

lemma nextN_from:
  "it_i itr \<le> length (it_partitions itr) \<Longrightarrow>
   nextN k itr =
     (map Inr (take k (drop (it_i itr) (it_partitions itr)))
        @ replicate (k - (length (it_partitions itr) - it_i itr)) (Inl EOF),
      itr\<lparr>it_i := min (it_i itr + k) (length (it_partitions itr))\<rparr>)"
proof (induction k arbitrary: itr)
  case 0
  then show ?case by simp
next
  case (Suc k)
  show ?case
  proof (cases "it_i itr < length (it_partitions itr)")
    case True
    then have d: "drop (it_i itr) (it_partitions itr)
        = it_partitions itr ! it_i itr # drop (Suc (it_i itr)) (it_partitions itr)"
      by (simp add: Cons_nth_drop_Suc)
    from True have "it_i (itr\<lparr>it_i := it_i itr + 1\<rparr>)
        \<le> length (it_partitions (itr\<lparr>it_i := it_i itr + 1\<rparr>))"
      by simp
    from Suc.IH [OF this] True d show ?thesis
      by (simp add: Next_def Let_def min_def)
  next
    case False
    with Suc.prems have e: "it_i itr = length (it_partitions itr)" by simp
    from Suc.IH [OF Suc.prems] e show ?thesis
      by (simp add: Next_def Let_def replicate_app_Cons_same)
  qed
qed

lemma runCalls_Close:
  "runCalls cs itr = nextN (length (filter (\<lambda>c. c = CallNext) cs)) itr"
proof (induction cs arbitrary: itr)
  case Nil
  then show ?case by simp
next
  case (Cons c cs)
  then show ?case by (cases c) (simp_all add: Close_def split: prod.splits)
qed

text \<open>
  C10. On an iterator made by \<open>newDoltTablePartitionIter\<close> over \<open>partitions\<close>, the first
  \<open>k\<close> calls of \<open>Next\<close> return the first \<open>k\<close> partitions in index order, and every call
  beyond the last partition returns \<open>io.EOF\<close>: with \<open>n\<close> partitions, calls \<open>1\<close> to \<open>n\<close>
  return partitions \<open>0\<close> to \<open>n - 1\<close>, each once, and every later call returns \<open>io.EOF\<close>.
  \<open>Close\<close> returns \<open>nil\<close> and leaves the iterator as it is, and \<open>Close\<close> calls put
  anywhere between the \<open>Next\<close> calls do not change what the \<open>Next\<close> calls return.
\<close>

theorem partition_iter_exhaustion:
  "fst (nextN k (newDoltTablePartitionIter rowData partitions))
     = map Inr (take k partitions) @ replicate (k - length partitions) (Inl EOF) \<and>
   fst (Close itr) = None \<and> snd (Close itr) = itr \<and>
   runCalls cs (newDoltTablePartitionIter rowData partitions)
     = nextN (length (filter (\<lambda>c. c = CallNext) cs)) (newDoltTablePartitionIter rowData partitions)"
  using nextN_from [of "newDoltTablePartitionIter rowData partitions" k]
  by (simp add: runCalls_Close newDoltTablePartitionIter_def Close_def)

section \<open>Properties of the table-name listings\<close>

text \<open>
  C8. \<open>GetSystemTableNames\<close> drops the error of \<open>GetGeneratedSystemTables\<close>. On a root
  with the tables \<open>dolt_docs\<close> and \<open>t\<close>, when the first read of the table names succeeds
  and the second fails, \<open>GetGeneratedSystemTables\<close> returns the error, and
  \<open>GetSystemTableNames\<close> returns the persisted names alone, without an error; its
  caller \<open>GetAllTableNames\<close> returns without an error as well.
\<close>

theorem GetSystemTableNames_drops_error:
  "GetGeneratedSystemTables [(''dolt_docs'', tbl), (''t'', tbl)] [True] = (Inl StorageFailure, []) \<and>
   GetSystemTableNames [(''dolt_docs'', tbl), (''t'', tbl)] [False, True]
     = (Inr [''dolt_docs''], []) \<and>
   GetAllTableNames [(''dolt_docs'', tbl), (''t'', tbl)] [False, False, True]
     = (Inr [''t'', ''dolt_docs''], [])"
  by (simp add: GetAllTableNames_def GetNonSystemTableNames_def GetSystemTableNames_def
      GetPersistedSystemTables_def GetGeneratedSystemTables_def GetTableNames_def storeCall_def
      FilterStrings_def HasDoltPrefix_def HasPrefix_def ToLower_def toLowerChar_def
      DoltNamespace_def Let_def)

section \<open>Properties of the partitions\<close>

lemma unat_succ_less: "i < (n :: uint64) \<Longrightarrow> unat (i + 1) = Suc (unat i)"
proof -
  assume "i < n"
  then have "unat i < unat n" by (simp add: word_less_nat_alt)
  moreover have "unat n < 2 ^ 64" using unsigned_less [of n] by simp
  ultimately have "unat i + 1 < 2 ^ 64" by simp
  then show ?thesis by (simp add: unat_word_ariths)
qed

lemma fillPartitions_result:
  "i \<le> n - 1 \<Longrightarrow> unat (n - 1) < length ps \<Longrightarrow>
   fillPartitions rows ipp n i ps =
     Inr (take (unat i) ps
          @ map (\<lambda>k. fullPartition rows ipp (of_nat k)) [unat i ..< unat (n - 1)]
          @ drop (unat (n - 1)) ps)"
proof (induction rows ipp n i ps rule: fillPartitions.induct)
  case (1 rows ipp n i ps)
  show ?case
  proof (cases "i < n - 1")
    case True
    then have lt: "unat i < unat (n - 1)" by (simp add: word_less_nat_alt)
    with "1.prems" have inb: "unat i < length ps" by simp
    have suc: "unat (i + 1) = Suc (unat i)" by (rule unat_succ_less [OF True])
    have le: "i + 1 \<le> n - 1" using lt suc by (simp add: word_le_nat_alt)
    let ?ps = "ps[unat i := \<lparr>p_start = i * ipp, p_end = (i + 1) * ipp, p_rowData = Some rows\<rparr>]"
    have ih: "fillPartitions rows ipp n (i + 1) ?ps =
       Inr (take (unat (i + 1)) ?ps
          @ map (\<lambda>k. fullPartition rows ipp (of_nat k)) [unat (i + 1) ..< unat (n - 1)]
          @ drop (unat (n - 1)) ?ps)"
      using "1.IH" [OF True inb le] "1.prems" by simp
    have t: "take (Suc (unat i)) ?ps = take (unat i) ps @ [fullPartition rows ipp i]"
      using inb by (simp add: take_Suc_conv_app_nth fullPartition_def)
    have d: "drop (unat (n - 1)) ?ps = drop (unat (n - 1)) ps"
      using lt by simp
    have u: "[unat i ..< unat (n - 1)] = unat i # [Suc (unat i) ..< unat (n - 1)]"
      using lt by (simp add: upt_conv_Cons)
    have "fillPartitions rows ipp n i ps = fillPartitions rows ipp n (i + 1) ?ps"
      using True inb by (subst fillPartitions.simps) simp
    then show ?thesis
      by (simp add: ih suc t d u)
  next
    case False
    with "1.prems" have "i = n - 1" by simp
    then show ?thesis
      by (subst fillPartitions.simps) simp
  qed
qed


lemma fill_then_last:
  assumes "unat q + 1 < 2 ^ 64"
  shows "(case fillPartitions rows ipp (q + 1) 0 (replicate (unat (q + 1)) zeroPartition) of
            Inl p \<Rightarrow> Inl p
          | Inr partitions \<Rightarrow>
              if unat (q + 1 - 1) < length partitions then
                Inr (partitions[unat (q + 1 - 1) :=
                  \<lparr>p_start = (q + 1 - 1) * ipp, p_end = Count rows, p_rowData = Some rows\<rparr>])
              else Inl IndexOutOfRange)
         = Inr (layout rows ipp q)"
proof -
  have n: "unat (q + 1) = Suc (unat q)"
    using assms by (simp add: unat_word_ariths)
  have m: "q + 1 - 1 = q" by simp
  have d: "drop (unat q) (replicate (Suc (unat q)) zeroPartition) = [zeroPartition]"
    by (simp only: drop_replicate) simp
  have t: "take 0 (replicate (Suc (unat q)) zeroPartition) = []"
    by simp
  have "fillPartitions rows ipp (q + 1) 0 (replicate (Suc (unat q)) zeroPartition) =
     Inr (take (unat (0 :: uint64)) (replicate (Suc (unat q)) zeroPartition)
          @ map (\<lambda>k. fullPartition rows ipp (of_nat k)) [unat (0 :: uint64) ..< unat (q + 1 - 1)]
          @ drop (unat (q + 1 - 1)) (replicate (Suc (unat q)) zeroPartition))"
    by (rule fillPartitions_result) (simp_all add: m del: replicate.simps)
  then have f: "fillPartitions rows ipp (q + 1) 0 (replicate (unat (q + 1)) zeroPartition) =
     Inr (map (\<lambda>k. fullPartition rows ipp (of_nat k)) [0 ..< unat q] @ [zeroPartition])"
    unfolding m d n unat_0 t by simp
  show ?thesis
    unfolding f m by (simp add: layout_def lastPartition_def list_update_append)
qed

lemma unat_of_nat_mult:
  "k * unat (w :: uint64) < 2 ^ 64 \<Longrightarrow> unat (of_nat k * w) = k * unat w"
proof -
  assume b: "k * unat w < 2 ^ 64"
  have "unat (of_nat k * w) = (k mod 2 ^ 64 * unat w) mod 2 ^ 64"
    by (simp add: unat_word_ariths unat_of_nat)
  also have "\<dots> = (k * unat w) mod 2 ^ 64"
    by (simp add: mod_mult_left_eq)
  finally show ?thesis using b by simp
qed

lemma unat_mult_64:
  "unat (a :: uint64) * unat b < 2 ^ 64 \<Longrightarrow> unat (a * b) = unat a * unat b"
  by (simp add: unat_word_ariths)

lemma layout_length: "length (layout rows ipp q) = Suc (unat q)"
  by (simp add: layout_def)

lemma layout_nth:
  "k < unat q \<Longrightarrow> layout rows ipp q ! k = fullPartition rows ipp (of_nat k)"
  "layout rows ipp q ! unat q = lastPartition rows ipp q"
  by (simp_all add: layout_def nth_append)

lemma layout_hd: "p_start (hd (layout rows ipp q)) = 0"
proof (cases "unat q")
  case 0
  then have "q = 0" by (simp add: unat_eq_0)
  then show ?thesis by (simp add: layout_def lastPartition_def)
next
  case (Suc m)
  then have "[0 ..< unat q] = 0 # [1 ..< unat q]"
    by (simp add: upt_conv_Cons)
  then show ?thesis by (simp add: layout_def fullPartition_def)
qed

lemma layout_last: "p_end (last (layout rows ipp q)) = Count rows"
  by (simp add: layout_def lastPartition_def)

lemma layout_chain:
  assumes "Suc k < length (layout rows ipp q)"
  shows "p_start (layout rows ipp q ! Suc k) = p_end (layout rows ipp q ! k)"
proof -
  from assms have k: "k < unat q" by (simp add: layout_length)
  have e: "p_end (layout rows ipp q ! k) = (of_nat k + 1) * ipp"
    using k by (simp add: layout_nth fullPartition_def)
  show ?thesis
  proof (cases "Suc k < unat q")
    case True
    then show ?thesis by (simp add: e layout_nth fullPartition_def add.commute)
  next
    case False
    with k have s: "Suc k = unat q" by simp
    then have "of_nat (Suc k) = q" by simp
    then have q: "of_nat k + 1 = q" by (simp add: add.commute)
    have "layout rows ipp q ! Suc k = lastPartition rows ipp q"
      unfolding s by (rule layout_nth)
    then have "p_start (layout rows ipp q ! Suc k) = q * ipp"
      by (simp add: lastPartition_def)
    then show ?thesis unfolding e q .
  qed
qed

lemma layout_mono:
  assumes b: "unat q * unat ipp \<le> unat (Count rows)"
    and p: "p \<in> set (layout rows ipp q)"
  shows "p_start p \<le> p_end p"
proof -
  have R: "unat (Count rows) < 2 ^ 64"
    using unsigned_less [of "Count rows"] by simp
  from p consider (full) k where "k < unat q" "p = fullPartition rows ipp (of_nat k)"
    | (last) "p = lastPartition rows ipp q"
    by (auto simp: layout_def)
  then show ?thesis
  proof cases
    case full
    have "Suc k * unat ipp \<le> unat q * unat ipp"
      using full(1) by (intro mult_le_mono1) simp
    with b R have b1: "Suc k * unat ipp < 2 ^ 64" by simp
    then have b0: "k * unat ipp < 2 ^ 64" by simp
    have "unat (of_nat k * ipp) = k * unat ipp"
      by (rule unat_of_nat_mult [OF b0])
    moreover have "unat ((of_nat k + 1) * ipp) = Suc k * unat ipp"
      using unat_of_nat_mult [OF b1] by (simp add: add.commute)
    ultimately show ?thesis
      using full(2) by (simp add: fullPartition_def word_le_nat_alt)
  next
    case last
    have "unat (q * ipp) = unat q * unat ipp"
      using b R by (intro unat_mult_64) simp
    with b show ?thesis
      using last by (simp add: lastPartition_def word_le_nat_alt)
  qed
qed

lemma chain_ordered:
  fixes ps :: "doltTablePartition list"
  assumes chain: "\<And>k. Suc k < length ps \<Longrightarrow> p_start (ps ! Suc k) = p_end (ps ! k)"
    and mono: "\<And>p. p \<in> set ps \<Longrightarrow> p_start p \<le> p_end p"
  shows "j < k \<Longrightarrow> k < length ps \<Longrightarrow> p_end (ps ! j) \<le> p_start (ps ! k)"
proof (induction k)
  case 0
  then show ?case by simp
next
  case (Suc k)
  have s: "p_start (ps ! Suc k) = p_end (ps ! k)"
    using chain Suc.prems by simp
  show ?case
  proof (cases "j = k")
    case True
    then show ?thesis by (simp add: s)
  next
    case False
    with Suc.prems have "j < k" "k < length ps" by simp_all
    then have "p_end (ps ! j) \<le> p_start (ps ! k)" by (rule Suc.IH)
    also have "\<dots> \<le> p_end (ps ! k)"
      using mono \<open>k < length ps\<close> by simp
    finally show ?thesis by (simp add: s)
  qed
qed

lemma chain_union:
  fixes ps :: "doltTablePartition list"
  assumes "ps \<noteq> []"
    and "\<And>k. Suc k < length ps \<Longrightarrow> p_start (ps ! Suc k) = p_end (ps ! k)"
    and "\<And>p. p \<in> set ps \<Longrightarrow> p_start p \<le> p_end p"
  shows "(\<Union>p\<in>set ps. {p_start p ..< p_end p}) = {p_start (hd ps) ..< p_end (last ps)}
         \<and> p_start (hd ps) \<le> p_end (last ps)"
  using assms
proof (induction ps rule: list_nonempty_induct)
  case (single x)
  then show ?case by simp
next
  case (cons x xs)
  have c: "\<And>k. Suc k < length xs \<Longrightarrow> p_start (xs ! Suc k) = p_end (xs ! k)"
    using cons.prems(1) [of "Suc k" for k] by simp
  have m: "\<And>p. p \<in> set xs \<Longrightarrow> p_start p \<le> p_end p"
    using cons.prems(2) by simp
  from cons.IH [OF c m]
  have ih: "(\<Union>p\<in>set xs. {p_start p ..< p_end p}) = {p_start (hd xs) ..< p_end (last xs)}"
    and le: "p_start (hd xs) \<le> p_end (last xs)" by simp_all
  have h: "p_start (hd xs) = p_end x"
    using cons.prems(1) [of 0] cons.hyps by (simp add: hd_conv_nth)
  have x: "p_start x \<le> p_end x"
    using cons.prems(2) by simp
  have "(\<Union>p\<in>set (x # xs). {p_start p ..< p_end p})
      = {p_start x ..< p_end x} \<union> {p_end x ..< p_end (last xs)}"
    by (simp add: ih h)
  also have "\<dots> = {p_start x ..< p_end (last xs)}"
    using x le h by (simp add: ivl_disj_un_two)
  finally show ?case
    using cons.hyps x le h by simp
qed


lemma fillAll_layout:
  assumes "unat q + 1 < 2 ^ 64" "n = q + 1"
  shows "fillAll rows ipp n = Inr (layout rows ipp q)"
  unfolding fillAll_def assms(2) by (rule fill_then_last [OF assms(1)])

lemma partitionsFromTableRows_plan:
  "partitionsFromTableRows ncpu rows =
     fillAll rows (fst (partitionPlan ncpu (Count rows))) (snd (partitionPlan ncpu (Count rows)))"
  unfolding partitionsFromTableRows_def fillAll_def partitionPlan_def Let_def case_prod_unfold
    partitionMultiplier_def
  by (simp only: if_distrib [of fst] if_distrib [of snd] fst_conv snd_conv if_cancel)

lemma div_plus_one_bound:
  fixes r w :: nat
  assumes "r < 2 ^ 64" "w < 2 ^ 63" "r div w \<noteq> 0"
  shows "r div (r div w) + 1 < 2 ^ 64"
proof (cases "r div w = 1")
  case True
  have "0 < w"
    using assms(3) by (cases "w = 0") simp_all
  then have "r < w + r div w * w"
    by (rule dividend_less_div_times)
  with True have "r < 2 * w" by simp
  with assms(2) have "r + 1 < 2 ^ 64" by simp
  with True show ?thesis by simp
next
  case False
  with assms(3) have "2 \<le> r div w" by simp
  then have "r div (r div w) \<le> r div 2"
    by (intro div_le_mono2) simp_all
  also have "\<dots> < 2 ^ 63" using assms(1) by simp
  finally show ?thesis by simp
qed

lemma partitionPlan_bounds:
  assumes "ncpu < 2 ^ 62" and "partitionPlan ncpu R = (ipp, n)"
  shows "\<exists>q. n = q + 1 \<and> unat q * unat ipp \<le> unat R \<and> unat q + 1 < 2 ^ 64"
proof -
  have R: "unat R < 2 ^ 64"
    using unsigned_less [of R] by simp
  have "unat ncpu < 2 ^ 62"
    using assms(1) by (simp add: word_less_nat_alt)
  then have W: "unat (2 * ncpu) < 2 ^ 63"
    by (simp add: unat_word_ariths)
  consider (cap) "\<not> R div MaxRowsPerPartition + 1 < 2 * ncpu"
    | (one) "R div MaxRowsPerPartition + 1 < 2 * ncpu" "R div (2 * ncpu) = 0"
    | (par) "R div MaxRowsPerPartition + 1 < 2 * ncpu" "R div (2 * ncpu) \<noteq> 0"
    by blast
  then show ?thesis
  proof cases
    case cap
    then have "partitionPlan ncpu R = (MaxRowsPerPartition, R div MaxRowsPerPartition + 1)"
      by (simp add: partitionPlan_def)
    with assms(2) have e: "ipp = MaxRowsPerPartition" "n = R div MaxRowsPerPartition + 1"
      by simp_all
    have "unat (R div MaxRowsPerPartition) = unat R div 32768"
      by (simp add: MaxRowsPerPartition_def unat_div)
    moreover have "unat ipp = 32768"
      by (simp add: e MaxRowsPerPartition_def)
    ultimately show ?thesis using R e(2) by (intro exI [of _ "R div MaxRowsPerPartition"]) simp
  next
    case one
    then have "partitionPlan ncpu R = (R, 1)"
      by (simp add: partitionPlan_def)
    with assms(2) have "ipp = R" "n = 1"
      by simp_all
    then show ?thesis by (intro exI [of _ 0]) simp
  next
    case par
    then have "partitionPlan ncpu R = (R div (2 * ncpu), R div (R div (2 * ncpu)) + 1)"
      by (simp add: partitionPlan_def)
    with assms(2) have e: "ipp = R div (2 * ncpu)" "n = R div (R div (2 * ncpu)) + 1"
      by auto
    have i: "unat ipp = unat R div unat (2 * ncpu)"
      by (simp add: e unat_div)
    have q: "unat (R div (R div (2 * ncpu))) = unat R div (unat R div unat (2 * ncpu))"
      by (simp add: unat_div)
    have "unat ipp \<noteq> 0"
      using par(2) e(1) by (simp add: unat_eq_0)
    then have "unat R div unat (2 * ncpu) \<noteq> 0"
      by (simp add: i)
    from div_plus_one_bound [OF R W this] e(2) show ?thesis
      by (intro exI [of _ "R div (R div (2 * ncpu))"]) (simp add: i q)
  qed
qed

lemma partitionsFromRows_layout:
  assumes "ncpu < 2 ^ 62"
  shows "\<exists>ipp q. partitionPlan ncpu (Count rows) = (ipp, q + 1) \<and>
           unat q * unat ipp \<le> unat (Count rows) \<and> unat q + 1 < 2 ^ 64 \<and>
           partitionsFromRows ncpu rows = Inr (layout rows ipp q)"
proof -
  obtain ipp n where plan: "partitionPlan ncpu (Count rows) = (ipp, n)"
    by (cases "partitionPlan ncpu (Count rows)")
  from partitionPlan_bounds [OF assms plan] obtain q where
    q: "n = q + 1" "unat q * unat ipp \<le> unat (Count rows)" "unat q + 1 < 2 ^ 64"
    by blast
  have t: "partitionsFromTableRows ncpu rows = Inr (layout rows ipp q)"
    using plan q by (simp add: partitionsFromTableRows_plan fillAll_layout)
  have "partitionsFromRows ncpu rows = Inr (layout rows ipp q)"
  proof (cases "Empty rows")
    case True
    then have z: "Count rows = 0" by (simp add: Empty_def)
    with plan q(1) have "q + 1 = 1"
      by (auto simp: partitionPlan_def MaxRowsPerPartition_def split: if_splits)
    then have "q = 0" by simp
    with True z show ?thesis
      by (simp add: partitionsFromRows_def layout_def lastPartition_def)
  next
    case False
    then show ?thesis
      by (simp add: partitionsFromRows_def t)
  qed
  with plan q show ?thesis by blast
qed

text \<open>
  C2. When the doubled CPU count fits an \<open>int\<close>, \<open>partitionsFromRows\<close> returns, for
  every row count, a non-empty list of half-open ranges: the first starts at 0, each
  next one starts where the one before ends, no range ends before it starts, the last
  ends at the row count; so the ranges are pairwise disjoint and their union is
  \<open>[0, R)\<close>. For an empty table the list is the one partition \<open>[0, 0)\<close>.
\<close>

theorem partitions_cover:
  assumes "ncpu < 2 ^ 62"
  shows "\<exists>ps. partitionsFromRows ncpu rows = Inr ps \<and> ps \<noteq> [] \<and>
           p_start (hd ps) = 0 \<and> p_end (last ps) = Count rows \<and>
           (\<forall>k. Suc k < length ps \<longrightarrow> p_start (ps ! Suc k) = p_end (ps ! k)) \<and>
           (\<forall>p \<in> set ps. p_start p \<le> p_end p) \<and>
           (\<forall>j k. j < k \<and> k < length ps \<longrightarrow>
              {p_start (ps ! j) ..< p_end (ps ! j)} \<inter> {p_start (ps ! k) ..< p_end (ps ! k)} = {}) \<and>
           (\<Union>p \<in> set ps. {p_start p ..< p_end p}) = {0 ..< Count rows} \<and>
           (Count rows = 0 \<longrightarrow> ps = [\<lparr>p_start = 0, p_end = 0, p_rowData = Some rows\<rparr>])"
proof -
  from partitionsFromRows_layout [OF assms] obtain ipp q where
    b: "unat q * unat ipp \<le> unat (Count rows)"
    and r: "partitionsFromRows ncpu rows = Inr (layout rows ipp q)"
    by blast
  let ?ps = "layout rows ipp q"
  have ne: "?ps \<noteq> []" by (simp add: layout_def)
  have chain: "\<And>k. Suc k < length ?ps \<Longrightarrow> p_start (?ps ! Suc k) = p_end (?ps ! k)"
    by (rule layout_chain)
  have mono: "\<And>p. p \<in> set ?ps \<Longrightarrow> p_start p \<le> p_end p"
    by (rule layout_mono [OF b])
  have un: "(\<Union>p \<in> set ?ps. {p_start p ..< p_end p}) = {0 ..< Count rows}"
    using chain_union [OF ne chain mono] by (simp add: layout_hd layout_last)
  have dj: "\<And>j k. j < k \<Longrightarrow> k < length ?ps \<Longrightarrow>
      {p_start (?ps ! j) ..< p_end (?ps ! j)} \<inter> {p_start (?ps ! k) ..< p_end (?ps ! k)} = {}"
  proof -
    fix j k assume "j < k" "k < length ?ps"
    then have "p_end (?ps ! j) \<le> p_start (?ps ! k)"
      using chain mono by (intro chain_ordered) simp_all
    then show "{p_start (?ps ! j) ..< p_end (?ps ! j)} \<inter> {p_start (?ps ! k) ..< p_end (?ps ! k)} = {}"
      by auto
  qed
  have z: "Count rows = 0 \<longrightarrow> ?ps = [\<lparr>p_start = 0, p_end = 0, p_rowData = Some rows\<rparr>]"
  proof
    assume z: "Count rows = 0"
    then have "partitionsFromRows ncpu rows = Inr [\<lparr>p_start = 0, p_end = 0, p_rowData = Some rows\<rparr>]"
      by (simp add: partitionsFromRows_def Empty_def)
    with r show "?ps = [\<lparr>p_start = 0, p_end = 0, p_rowData = Some rows\<rparr>]"
      by simp
  qed
  show ?thesis
    using r ne chain mono un dj z by (auto simp: layout_hd layout_last)
qed


theorem partitions_cover_witness:
  "(3 :: go_int) < 2 ^ 62 \<and>
   (\<exists>ps. partitionsFromRows 3 (Index 100) = Inr ps \<and> ps \<noteq> [] \<and>
           p_start (hd ps) = 0 \<and> p_end (last ps) = Count (Index 100) \<and>
           (\<forall>k. Suc k < length ps \<longrightarrow> p_start (ps ! Suc k) = p_end (ps ! k)) \<and>
           (\<forall>p \<in> set ps. p_start p \<le> p_end p) \<and>
           (\<forall>j k. j < k \<and> k < length ps \<longrightarrow>
              {p_start (ps ! j) ..< p_end (ps ! j)} \<inter> {p_start (ps ! k) ..< p_end (ps ! k)} = {}) \<and>
           (\<Union>p \<in> set ps. {p_start p ..< p_end p}) = {0 ..< Count (Index 100)} \<and>
           (Count (Index 100) = 0 \<longrightarrow> ps = [\<lparr>p_start = 0, p_end = 0, p_rowData = Some (Index 100)\<rparr>]))"
proof -
  have h: "(3 :: go_int) < 2 ^ 62" by simp
  from partitions_cover [OF h, of "Index 100"] h show ?thesis by blast
qed

lemma layout_width:
  assumes "Suc k < length (layout rows ipp q)"
  shows "p_end (layout rows ipp q ! k) - p_start (layout rows ipp q ! k) = ipp"
proof -
  from assms have "k < unat q" by (simp add: layout_length)
  then show ?thesis
    by (simp add: layout_nth fullPartition_def algebra_simps)
qed

lemma partitionsFromRows_plan:
  assumes "ncpu < 2 ^ 62" and "partitionPlan ncpu (Count rows) = (ipp, n)"
  shows "partitionsFromRows ncpu rows = Inr (layout rows ipp (n - 1)) \<and>
         length (layout rows ipp (n - 1)) = unat (n - 1) + 1"
proof -
  from partitionsFromRows_layout [OF assms(1), of rows] assms(2)
  obtain q where "n = q + 1" "partitionsFromRows ncpu rows = Inr (layout rows ipp q)"
    by auto
  then show ?thesis by (simp add: layout_length)
qed

lemma small_plan:
  assumes "ncpu < 2 ^ 62" "R < 2 * ncpu" "R \<noteq> 0"
  shows "partitionPlan ncpu R = (R, 1)"
proof -
  have r: "unat R < unat (2 * ncpu)"
    using assms(2) by (simp add: word_less_nat_alt)
  have "unat R \<noteq> 0"
    using assms(3) by (simp add: unat_eq_0)
  then have "unat R div 32768 + 1 \<le> unat R"
    by simp
  moreover have "unat (R div MaxRowsPerPartition + 1) = unat R div 32768 + 1"
  proof -
    have "unat (R div MaxRowsPerPartition) = unat R div 32768"
      by (simp add: MaxRowsPerPartition_def unat_div)
    moreover have "unat R < 2 ^ 64"
      using unsigned_less [of R] by simp
    ultimately show ?thesis
      by (simp add: unat_word_ariths)
  qed
  ultimately have c1: "R div MaxRowsPerPartition + 1 < 2 * ncpu"
    using r by (simp add: word_less_nat_alt)
  have "unat (R div (2 * ncpu)) = 0"
    using r by (simp add: unat_div)
  then have c2: "R div (2 * ncpu) = 0"
    by (simp add: unat_eq_0)
  show ?thesis
    by (simp add: partitionPlan_def c1 c2)
qed

lemma par_count:
  fixes r w :: nat
  assumes "r div w \<noteq> 0"
  shows "w \<le> r div (r div w) \<and> r div (r div w) < 2 * w"
proof -
  let ?i = "r div w"
  have w: "0 < w"
    using assms by (cases "w = 0") simp_all
  have i: "0 < ?i" using assms by simp
  have "w * ?i \<le> r"
    by (simp add: mult.commute)
  then have "(w * ?i) div ?i \<le> r div ?i"
    by (rule div_le_mono)
  then have lo: "w \<le> r div ?i"
    using i by simp
  have "r < w + ?i * w"
    using dividend_less_div_times [OF w, of r] by simp
  also have "\<dots> \<le> 2 * w * ?i"
    using i by (cases ?i) simp_all
  finally have "r div ?i < 2 * w"
    using i by (simp add: less_mult_imp_div_less)
  with lo show ?thesis by simp
qed

text \<open>
  C7, as the code has it. A table with fewer rows than twice the CPU count gets one
  partition over all its rows. Otherwise, while \<open>R div MaxRowsPerPartition + 1\<close> is
  below twice the CPU count, it gets \<open>R div (R div (2 * ncpu)) + 1\<close> partitions, more
  than twice and at most four times the CPU count, each but the last of
  \<open>R div (2 * ncpu)\<close> rows. From there on it gets \<open>R div MaxRowsPerPartition + 1\<close>
  partitions, each but the last of \<open>MaxRowsPerPartition\<close> rows: their number grows
  with the row count and does not depend on the CPU count.
\<close>

theorem partition_count_policy:
  assumes "ncpu < 2 ^ 62"
  shows
   "(Count rows < 2 * ncpu \<longrightarrow>
       partitionsFromRows ncpu rows
         = Inr [\<lparr>p_start = 0, p_end = Count rows, p_rowData = Some rows\<rparr>]) \<and>
    (Count rows div (2 * ncpu) \<noteq> 0 \<and> Count rows div MaxRowsPerPartition + 1 < 2 * ncpu \<longrightarrow>
       (\<exists>ps. partitionsFromRows ncpu rows = Inr ps \<and>
          length ps = unat (Count rows div (Count rows div (2 * ncpu))) + 1 \<and>
          2 * unat ncpu < length ps \<and> length ps \<le> 4 * unat ncpu \<and>
          (\<forall>k. Suc k < length ps \<longrightarrow>
             p_end (ps ! k) - p_start (ps ! k) = Count rows div (2 * ncpu)))) \<and>
    (\<not> Count rows div MaxRowsPerPartition + 1 < 2 * ncpu \<longrightarrow>
       (\<exists>ps. partitionsFromRows ncpu rows = Inr ps \<and>
          length ps = unat (Count rows div MaxRowsPerPartition) + 1 \<and>
          (\<forall>k. Suc k < length ps \<longrightarrow>
             p_end (ps ! k) - p_start (ps ! k) = MaxRowsPerPartition)))"
proof (intro conjI impI)
  assume lt: "Count rows < 2 * ncpu"
  show "partitionsFromRows ncpu rows = Inr [\<lparr>p_start = 0, p_end = Count rows, p_rowData = Some rows\<rparr>]"
  proof (cases "Count rows = 0")
    case True
    then show ?thesis by (simp add: partitionsFromRows_def Empty_def)
  next
    case False
    from partitionsFromRows_plan [OF assms small_plan [OF assms lt False]]
    show ?thesis by (simp add: layout_def lastPartition_def)
  qed
next
  assume c: "Count rows div (2 * ncpu) \<noteq> 0 \<and> Count rows div MaxRowsPerPartition + 1 < 2 * ncpu"
  let ?R = "Count rows"
  let ?ipp = "?R div (2 * ncpu)"
  let ?q = "?R div ?ipp"
  have plan: "partitionPlan ncpu ?R = (?ipp, ?q + 1)"
    using c by (simp add: partitionPlan_def)
  from partitionsFromRows_plan [OF assms plan]
  have r: "partitionsFromRows ncpu rows = Inr (layout rows ?ipp ?q)"
    and l: "length (layout rows ?ipp ?q) = unat ?q + 1"
    by simp_all
  have "unat ncpu < 2 ^ 62"
    using assms by (simp add: word_less_nat_alt)
  then have W: "unat (2 * ncpu) = 2 * unat ncpu"
    by (simp add: unat_word_ariths)
  have "unat ?ipp \<noteq> 0"
    using c by (simp add: unat_eq_0)
  then have "unat ?R div (2 * unat ncpu) \<noteq> 0"
    by (simp add: unat_div W)
  from par_count [OF this]
  have "2 * unat ncpu \<le> unat ?q \<and> unat ?q < 2 * (2 * unat ncpu)"
    by (simp add: unat_div W)
  then have "2 * unat ncpu < length (layout rows ?ipp ?q)"
    "length (layout rows ?ipp ?q) \<le> 4 * unat ncpu"
    by (simp_all add: l)
  with r l show "\<exists>ps. partitionsFromRows ncpu rows = Inr ps \<and>
          length ps = unat ?q + 1 \<and>
          2 * unat ncpu < length ps \<and> length ps \<le> 4 * unat ncpu \<and>
          (\<forall>k. Suc k < length ps \<longrightarrow> p_end (ps ! k) - p_start (ps ! k) = ?ipp)"
    using layout_width [of _ rows ?ipp ?q] by blast
next
  assume c: "\<not> Count rows div MaxRowsPerPartition + 1 < 2 * ncpu"
  let ?q = "Count rows div MaxRowsPerPartition"
  have plan: "partitionPlan ncpu (Count rows) = (MaxRowsPerPartition, ?q + 1)"
    using c by (simp add: partitionPlan_def)
  from partitionsFromRows_plan [OF assms plan]
  have r: "partitionsFromRows ncpu rows = Inr (layout rows MaxRowsPerPartition ?q)"
    and l: "length (layout rows MaxRowsPerPartition ?q) = unat ?q + 1"
    by simp_all
  then show "\<exists>ps. partitionsFromRows ncpu rows = Inr ps \<and>
          length ps = unat ?q + 1 \<and>
          (\<forall>k. Suc k < length ps \<longrightarrow> p_end (ps ! k) - p_start (ps ! k) = MaxRowsPerPartition)"
    using layout_width [of _ rows MaxRowsPerPartition ?q] by blast
qed

theorem partition_count_policy_witness:
  "(4 :: go_int) < 2 ^ 62 \<and> Count (Index 3) < 2 * 4 \<and>
   partitionsFromRows 4 (Index 3) = Inr [\<lparr>p_start = 0, p_end = 3, p_rowData = Some (Index 3)\<rparr>] \<and>
   Count (Index 31) div (2 * 4) \<noteq> 0 \<and> Count (Index 31) div MaxRowsPerPartition + 1 < 2 * 4 \<and>
   (\<exists>ps. partitionsFromRows 4 (Index 31) = Inr ps \<and> length ps = 11 \<and>
      8 < length ps \<and> length ps \<le> 16 \<and>
      (\<forall>k. Suc k < length ps \<longrightarrow> p_end (ps ! k) - p_start (ps ! k) = 3)) \<and>
   (1 :: go_int) < 2 ^ 62 \<and> \<not> Count (Index 327680) div MaxRowsPerPartition + 1 < 2 * 1 \<and>
   (\<exists>ps. partitionsFromRows 1 (Index 327680) = Inr ps \<and> length ps = 11 \<and>
      (\<forall>k. Suc k < length ps \<longrightarrow> p_end (ps ! k) - p_start (ps ! k) = 32768))"
proof -
  have a: "(4 :: go_int) < 2 ^ 62" and b: "(1 :: go_int) < 2 ^ 62"
    by simp_all
  show ?thesis
    using partition_count_policy [OF a, of "Index 3"] partition_count_policy [OF a, of "Index 31"]
      partition_count_policy [OF b, of "Index 327680"]
    by (simp add: MaxRowsPerPartition_def)
qed

text \<open>
  A table above the threshold whose number of partitions is not near twice the worker
  count: with 327680 rows there are 11 partitions on one CPU, and 11 on two.
\<close>

lemma plan_1: "partitionPlan 1 327680 = (MaxRowsPerPartition, 11)"
  by (simp add: partitionPlan_def MaxRowsPerPartition_def)

lemma plan_2: "partitionPlan 2 327680 = (MaxRowsPerPartition, 11)"
  by (simp add: partitionPlan_def MaxRowsPerPartition_def)

theorem partition_count_counterexample:
  "MaxRowsPerPartition < Count (Index 327680) \<and>
   map_sum id length (partitionsFromRows 1 (Index 327680)) = Inr 11 \<and>
   map_sum id length (partitionsFromRows 2 (Index 327680)) = Inr 11"
proof -
  have a: "(1 :: go_int) < 2 ^ 62" by simp
  have b: "(2 :: go_int) < 2 ^ 62" by simp
  have p1: "partitionPlan 1 (Count (Index 327680)) = (MaxRowsPerPartition, 11)"
    using plan_1 by simp
  have p2: "partitionPlan 2 (Count (Index 327680)) = (MaxRowsPerPartition, 11)"
    using plan_2 by simp
  show ?thesis
    using partitionsFromRows_plan [OF a p1] partitionsFromRows_plan [OF b p2]
    by (simp add: MaxRowsPerPartition_def)
qed


section \<open>Properties of the address walk\<close>

lemma walkLoop_visitEach:
  "walkLoop cb arr i s =
     (case visitEach cb (map (\<lambda>k. take addrSize (drop (k * addrSize) arr)) [i ..< length arr div ByteLen]) s of
        (r, s') \<Rightarrow> (Inr r, s'))"
proof (induction cb arr i s rule: walkLoop.induct)
  case (1 cb arr i s)
  show ?case
  proof (cases "i < length arr div ByteLen")
    case True
    then have "Suc i * 20 \<le> (length arr div 20) * 20"
      by (simp add: ByteLen_def Suc_leI)
    also have "\<dots> \<le> length arr" by simp
    finally have b: "i * 20 + 20 \<le> length arr" by simp
    let ?a = "take addrSize (drop (i * addrSize) arr)"
    have sl: "subslice arr (i * addrSize) ((i + 1) * addrSize) = Inr ?a"
      using b by (simp add: subslice_def addrSize_def ByteLen_def)
    have hn: "hash_New ?a = Inr ?a"
      using b by (simp add: hash_New_def assertTrue_def addrSize_def ByteLen_def)
    have u: "[i ..< length arr div ByteLen] = i # [Suc i ..< length arr div ByteLen]"
      using True by (simp add: upt_conv_Cons)
    show ?thesis
    proof (cases "cb ?a s")
      case (Pair r s')
      show ?thesis
      proof (cases r)
        case None
        with Pair True sl hn "1.IH" [of ?a ?a None s'] show ?thesis
          by (subst walkLoop.simps) (simp add: u)
      next
        case (Some e)
        with Pair True sl hn show ?thesis
          by (subst walkLoop.simps) (simp add: u)
      qed
    qed
  next
    case False
    then show ?thesis
      by (subst walkLoop.simps) simp
  qed
qed

lemma logging_apply:
  "logging cb addr (s, log) = (case cb addr s of (r, s') \<Rightarrow> (r, (s', log @ [addr])))"
  by (simp add: logging_def)

lemma visitEach_logging:
  "visitEach (logging cb) addrs (s, log) = (r, (s', log')) \<Longrightarrow>
     visitEach cb addrs s = (r, s') \<and>
     (r = None \<longrightarrow> log' = log @ addrs) \<and>
     (\<forall>e. r = Some e \<longrightarrow>
        (\<exists>k sk. k < length addrs \<and> log' = log @ take (Suc k) addrs \<and>
           visitEach cb (take k addrs) s = (None, sk) \<and> cb (addrs ! k) sk = (Some e, s')))"
proof (induction addrs arbitrary: s log)
  case Nil
  then show ?case by simp
next
  case (Cons a addrs)
  obtain ra sa where c: "cb a s = (ra, sa)" by (cases "cb a s")
  show ?case
  proof (cases ra)
    case None
    with c Cons.prems have "visitEach (logging cb) addrs (sa, log @ [a]) = (r, (s', log'))"
      by (simp add: logging_apply)
    from Cons.IH [OF this] have
      v: "visitEach cb addrs sa = (r, s')"
      and n: "r = None \<longrightarrow> log' = (log @ [a]) @ addrs"
      and e: "\<forall>e. r = Some e \<longrightarrow>
        (\<exists>k sk. k < length addrs \<and> log' = (log @ [a]) @ take (Suc k) addrs \<and>
           visitEach cb (take k addrs) sa = (None, sk) \<and> cb (addrs ! k) sk = (Some e, s'))"
      by simp_all
    have "\<forall>e. r = Some e \<longrightarrow>
        (\<exists>k sk. k < length (a # addrs) \<and> log' = log @ take (Suc k) (a # addrs) \<and>
           visitEach cb (take k (a # addrs)) s = (None, sk) \<and> cb ((a # addrs) ! k) sk = (Some e, s'))"
    proof (intro allI impI)
      fix e assume "r = Some e"
      with e obtain k sk where k: "k < length addrs" "log' = (log @ [a]) @ take (Suc k) addrs"
        "visitEach cb (take k addrs) sa = (None, sk)" "cb (addrs ! k) sk = (Some e, s')"
        by blast
      then have "Suc k < length (a # addrs) \<and> log' = log @ take (Suc (Suc k)) (a # addrs) \<and>
           visitEach cb (take (Suc k) (a # addrs)) s = (None, sk) \<and>
           cb ((a # addrs) ! Suc k) sk = (Some e, s')"
        using c None by simp
      then show "\<exists>k sk. k < length (a # addrs) \<and> log' = log @ take (Suc k) (a # addrs) \<and>
           visitEach cb (take k (a # addrs)) s = (None, sk) \<and> cb ((a # addrs) ! k) sk = (Some e, s')"
        by blast
    qed
    with v n c None show ?thesis by simp
  next
    case (Some e)
    with c Cons.prems have r: "r = Some e" "s' = sa" "log' = log @ [a]"
      by (simp_all add: logging_apply)
    have "0 < length (a # addrs) \<and> log' = log @ take (Suc 0) (a # addrs) \<and>
           visitEach cb (take 0 (a # addrs)) s = (None, s) \<and> cb ((a # addrs) ! 0) s = (Some e, s')"
      using r c Some by simp
    then have "\<exists>k sk. k < length (a # addrs) \<and> log' = log @ take (Suc k) (a # addrs) \<and>
           visitEach cb (take k (a # addrs)) s = (None, sk) \<and> cb ((a # addrs) ! k) sk = (Some e, s')"
      by blast
    with r c Some show ?thesis by simp
  qed
qed

lemma walk_visitEach:
  "walkAddressMapAddresses msg cb s =
     (case visitEach cb (storedAddresses msg) s of (r, s') \<Rightarrow> (Inr r, s'))"
  by (simp add: walkAddressMapAddresses_def storedAddresses_def walkLoop_visitEach)

text \<open>
  C3. For every message, callback and starting state of the callback,
  \<open>walkAddressMapAddresses\<close> does not panic and is the fail-fast visit of the stored
  addresses in stored order. What the callback itself observes: if no call fails, it
  has been called on exactly the stored addresses, once each and in order, and the walk
  returns \<open>nil\<close>; if the walk returns an error \<open>e\<close>, the callback has been called on
  the first \<open>k + 1\<close> addresses only, its calls on the first \<open>k\<close> returned \<open>nil\<close>, and
  its call on address \<open>k\<close> returned \<open>e\<close>.
\<close>

theorem walk_visits_each_address_once:
  "\<exists>r s' log.
      walkAddressMapAddresses msg (logging cb) (s, []) = (Inr r, (s', log)) \<and>
      walkAddressMapAddresses msg cb s = (Inr r, s') \<and>
      visitEach cb (storedAddresses msg) s = (r, s') \<and>
      (r = None \<longrightarrow> log = storedAddresses msg) \<and>
      (\<forall>e. r = Some e \<longrightarrow>
         (\<exists>k sk. k < length (storedAddresses msg) \<and>
            log = take (Suc k) (storedAddresses msg) \<and>
            visitEach cb (take k (storedAddresses msg)) s = (None, sk) \<and>
            cb (storedAddresses msg ! k) sk = (Some e, s')))"
proof -
  obtain r s' log where
    v: "visitEach (logging cb) (storedAddresses msg) (s, []) = (r, (s', log))"
    by (metis prod.exhaust)
  from visitEach_logging [OF v] v show ?thesis
    by (auto simp: walk_visitEach)
qed

theorem walk_visits_each_address_once_witness:
  "(\<exists>r s' log.
      walkAddressMapAddresses
        (AddressMapStart\<lparr>AddressArray := replicate 20 1 @ replicate 20 2 @ replicate 20 3\<rparr>)
        (logging (\<lambda>addr n. (if addr = replicate 20 2 then Some ''stop'' else None, Suc n)))
        (0 :: nat, []) = (Inr r, (s', log)) \<and>
      r = Some ''stop'' \<and> s' = 2 \<and> log = [replicate 20 1, replicate 20 2]) \<and>
   (\<exists>r s' log.
      walkAddressMapAddresses
        (AddressMapStart\<lparr>AddressArray := replicate 20 1 @ replicate 20 2 @ replicate 20 3\<rparr>)
        (logging (\<lambda>addr n. (None :: string option, Suc n)))
        (0 :: nat, []) = (Inr r, (s', log)) \<and>
      r = None \<and> s' = 3 \<and> log = [replicate 20 1, replicate 20 2, replicate 20 3])"
proof -
  let ?msg = "AddressMapStart\<lparr>AddressArray := replicate 20 1 @ replicate 20 2 @ replicate 20 3\<rparr>"
  have st: "storedAddresses ?msg = [replicate 20 1, replicate 20 2, replicate 20 3]"
    by (simp add: storedAddresses_def AddressMapStart_def AddressArrayBytes_def
        ByteLen_def addrSize_def upt_conv_Cons)
  show ?thesis
    using walk_visits_each_address_once
        [of ?msg "\<lambda>addr n. (if addr = replicate 20 2 then Some ''stop'' else None, Suc n)" "0 :: nat"]
      walk_visits_each_address_once [of ?msg "\<lambda>addr n. (None :: string option, Suc n)" "0 :: nat"]
    by (auto simp: st less_Suc_eq)
qed

section \<open>Properties of the address-map codec, continued\<close>

lemma mask7: "(0x7f :: 'a::len word) = mask 7"
  by (simp add: mask_eq_exp_minus_1)

lemma bit_0x80: "bit (0x80 :: byte) n \<longleftrightarrow> n = 7"
proof -
  have "(0x80 :: byte) = 2 ^ 7" by simp
  then have "bit (0x80 :: byte) n \<longleftrightarrow> bit (2 ^ 7 :: byte) n" by simp
  also have "\<dots> \<longleftrightarrow> n = 7"
    by (simp only: bit_exp_iff) (auto simp: possible_bit_word)
  finally show ?thesis .
qed

lemma bit_128_int: "bit (128 :: int) n \<longleftrightarrow> n = 7"
proof -
  have "bit (128 :: int) n \<longleftrightarrow> bit (2 ^ 7 :: int) n" by simp
  also have "\<dots> \<longleftrightarrow> n = 7"
    by (simp only: bit_exp_iff) auto
  finally show ?thesis .
qed

lemma split7: "((y::uint64) AND 0x7f) OR push_bit 7 (drop_bit 7 y) = y"
  unfolding mask7
proof (rule bit_word_eqI)
  fix n assume "n < LENGTH(64)"
  then show "bit (y AND mask 7 OR push_bit 7 (drop_bit 7 y)) n = bit y n"
    by (cases "n < 7") (auto simp: bit_simps)
qed

lemma low7: "ucast ((ucast (y :: uint64) OR (0x80 :: byte)) AND 0x7f) = y AND (0x7f :: uint64)"
  unfolding mask7
  by (rule bit_word_eqI) (auto simp: bit_simps bit_0x80 bit_128_int)

lemma high_set: "\<not> (ucast (y :: uint64) OR (0x80 :: byte)) < 0x80"
proof -
  have "(0x80 :: byte) \<le> ucast y OR 0x80"
    by (rule le_word_or1)
  then show ?thesis by simp
qed

lemma unat_ucast_byte: "unat (ucast (y :: uint64) :: byte) = unat y mod 256"
proof -
  have "unat (ucast y :: byte) = take_bit LENGTH(8) (unat y)"
    by (rule unsigned_ucast_eq)
  also have "\<dots> = unat y mod 256"
    by (simp add: take_bit_eq_mod)
  finally show ?thesis .
qed

lemma unat_ucast_up: "unat (ucast (b :: byte) :: uint64) = unat b"
proof -
  have "unat (ucast b :: uint64) = take_bit LENGTH(64) (unat b)"
    by (rule unsigned_ucast_eq)
  also have "\<dots> = unat b mod 2 ^ 64"
    by (simp add: take_bit_eq_mod)
  also have "\<dots> = unat b"
  proof -
    have "unat b < 2 ^ 8" using unsigned_less [of b] by simp
    then show ?thesis by simp
  qed
  finally show ?thesis .
qed

lemma small_byte:
  assumes "(y :: uint64) < 0x80"
  shows "(ucast y :: byte) < 0x80" and "ucast (ucast y :: byte) = y"
proof -
  from assms have u: "unat y < 128" by (simp add: word_less_nat_alt)
  from u have e: "unat (ucast y :: byte) = unat y"
    by (simp add: unat_ucast_byte)
  then have "unat (ucast (ucast y :: byte) :: uint64) = unat y"
    by (simp only: unat_ucast_up)
  then show "ucast (ucast y :: byte) = y" by (simp add: word_unat_eq_iff)
  from e u show "(ucast y :: byte) < 0x80" by (simp add: word_less_nat_alt)
qed

lemma PutUvarint_length_pos: "PutUvarint y \<noteq> []"
  by (subst PutUvarint.simps) simp

lemma UvarintLoop_PutUvarint:
  "i \<le> 9 \<Longrightarrow> unat y < 2 ^ (64 - 7 * i) \<Longrightarrow>
   UvarintLoop x (7 * i) i (PutUvarint y @ rest)
     = (x OR push_bit (7 * i) y, int (i + length (PutUvarint y)))"
proof (induction y arbitrary: x i rule: PutUvarint.induct)
  case (1 y)
  show ?case
  proof (cases "0x80 \<le> y")
    case True
    then have u: "128 \<le> unat y" by (simp add: word_le_nat_alt)
    have i8: "i \<le> 8"
    proof (rule ccontr)
      assume "\<not> i \<le> 8"
      with "1.prems" have "i = 9" by simp
      with "1.prems" u show False by simp
    qed
    have p: "PutUvarint y = (ucast y OR 0x80) # PutUvarint (drop_bit 7 y)"
      using True by (subst PutUvarint.simps) simp
    have "unat (drop_bit 7 y) = unat y div 2 ^ 7"
      by (simp add: drop_bit_eq_div unat_div)
    also have "\<dots> < 2 ^ (64 - 7 * (i + 1))"
    proof -
      have "64 - 7 * i = (64 - 7 * (i + 1)) + 7"
        using i8 by simp
      then have "(2 :: nat) ^ (64 - 7 * i) = 2 ^ (64 - 7 * (i + 1)) * 2 ^ 7"
        by (simp only: power_add)
      with "1.prems"(2) show ?thesis
        by (simp add: less_mult_imp_div_less)
    qed
    finally have b: "unat (drop_bit 7 y) < 2 ^ (64 - 7 * (i + 1))" .
    have ih: "UvarintLoop x' (7 * (i + 1)) (i + 1) (PutUvarint (drop_bit 7 y) @ rest)
        = (x' OR push_bit (7 * (i + 1)) (drop_bit 7 y), int (i + 1 + length (PutUvarint (drop_bit 7 y))))" for x'
      using "1.IH" [OF True _ b] i8 by simp
    have s: "7 * (i + 1) = 7 * i + 7" by simp
    have "push_bit (7 * i) (y AND 0x7f) OR push_bit (7 * i + 7) (drop_bit 7 y)
        = push_bit (7 * i) ((y AND 0x7f) OR push_bit 7 (drop_bit 7 y))"
      by (simp add: push_bit_or push_bit_add add.commute)
    then have c: "push_bit (7 * i) (y AND 0x7f) OR push_bit (7 * i + 7) (drop_bit 7 y) = push_bit (7 * i) y"
      by (simp only: split7)
    have "UvarintLoop x (7 * i) i (PutUvarint y @ rest)
        = UvarintLoop (x OR push_bit (7 * i) (y AND 0x7f)) (7 * i + 7) (i + 1) (PutUvarint (drop_bit 7 y) @ rest)"
      using i8 high_set [of y] by (simp add: p MaxVarintLen64_def low7)
    also have "\<dots> = ((x OR push_bit (7 * i) (y AND 0x7f)) OR push_bit (7 * i + 7) (drop_bit 7 y),
        int (i + 1 + length (PutUvarint (drop_bit 7 y))))"
      using ih [of "x OR push_bit (7 * i) (y AND 0x7f)"] by (simp only: s)
    finally show ?thesis
      using c by (simp add: p or.assoc)
  next
    case False
    then have lt: "y < 0x80" by simp
    have p: "PutUvarint y = [ucast y]"
      using False by (subst PutUvarint.simps) simp
    have top: "i = 9 \<Longrightarrow> \<not> 1 < (ucast y :: byte)"
    proof -
      assume "i = 9"
      with "1.prems" have "unat y < 2" by simp
      then have "unat (ucast y :: byte) < 2"
        by (simp add: unat_ucast_byte)
      then show ?thesis by (simp add: word_less_nat_alt)
    qed
    show ?thesis
      using "1.prems"(1) small_byte [OF lt] top
      by (auto simp: p MaxVarintLen64_def)
  qed
qed

lemma Uvarint_PutUvarint:
  "Uvarint (PutUvarint y @ rest) = (y, int (length (PutUvarint y)))"
proof -
  have "unat y < 2 ^ 64" using unsigned_less [of y] by simp
  then show ?thesis
    using UvarintLoop_PutUvarint [of 0 y 0 rest] by (simp add: Uvarint_def)
qed

lemma decodeVarints_writeCountArray:
  "decodeVarints (writeCountArray counts) (length counts) = Inr counts"
proof (induction counts)
  case Nil
  then show ?case by (simp add: writeCountArray_def assertTrue_def)
next
  case (Cons c counts)
  have "writeCountArray (c # counts) = PutUvarint c @ writeCountArray counts"
    by (simp add: writeCountArray_def)
  with Cons show ?case
    by (simp add: Uvarint_PutUvarint)
qed


lemma offsetsFrom_length: "length (offsetsFrom off items) = Suc (length items)"
  by (induction items arbitrary: off) simp_all

lemma offsetsFrom_nth:
  "i \<le> length items \<Longrightarrow>
   offsetsFrom off items ! i = of_nat (off + sum_list (map length (take i items)))"
proof (induction items arbitrary: off i)
  case Nil
  then show ?case by simp
next
  case (Cons x items)
  then show ?case by (cases i) (simp_all add: add.assoc)
qed

lemma concat_writeUint16_length: "length (concat (map writeUint16 ws)) = 2 * length ws"
  by (induction ws) (simp_all add: writeUint16_def)

lemma concat_writeUint16_drop:
  "i < length ws \<Longrightarrow>
   drop (2 * i) (concat (map writeUint16 ws)) = writeUint16 (ws ! i) @ concat (map writeUint16 (drop (Suc i) ws))"
proof (induction ws arbitrary: i)
  case Nil
  then show ?case by simp
next
  case (Cons w ws)
  show ?case
  proof (cases i)
    case 0
    then show ?thesis by simp
  next
    case (Suc j)
    with Cons.prems have "j < length ws" by simp
    from Cons.IH [OF this] Suc show ?thesis
      by (simp add: writeUint16_def)
  qed
qed

lemma read_write_Uint16: "ucast (ucast (w :: uint16) :: byte) OR push_bit 8 (ucast (ucast (drop_bit 8 w) :: byte)) = w"
proof (rule bit_word_eqI)
  fix n assume "n < LENGTH(16)"
  then show "bit (ucast (ucast w :: byte) OR push_bit 8 (ucast (ucast (drop_bit 8 w) :: byte)) :: uint16) n = bit w n"
    by (cases "n < 8") (auto simp: bit_simps)
qed

lemma slice_Offs:
  assumes "i < length ws"
  shows "subslice (concat (map writeUint16 ws)) (i * 2) (i * 2 + 2) = Inr (writeUint16 (ws ! i))"
proof -
  have "2 * i + 2 \<le> 2 * length ws" using assms by simp
  then have "i * 2 + 2 \<le> length (concat (map writeUint16 ws))"
    by (simp add: concat_writeUint16_length mult.commute)
  moreover have "take 2 (drop (i * 2) (concat (map writeUint16 ws))) = writeUint16 (ws ! i)"
    using concat_writeUint16_drop [OF assms] by (simp add: mult.commute writeUint16_def)
  ultimately show ?thesis
    by (simp add: subslice_def)
qed

lemma readUint16_writeUint16: "readUint16 (writeUint16 w) = Inr w"
  by (simp add: readUint16_def writeUint16_def read_write_Uint16)

lemma GetItem_offsets:
  assumes "Suc i < length ws"
  shows "GetItem \<lparr>Items = bs, Offs = concat (map writeUint16 ws)\<rparr> i
           = subslice bs (unat (ws ! i)) (unat (ws ! Suc i))"
proof -
  have a: "subslice (concat (map writeUint16 ws)) (i * 2) (i * 2 + 2) = Inr (writeUint16 (ws ! i))"
    using assms by (intro slice_Offs) simp
  have "subslice (concat (map writeUint16 ws)) (Suc i * 2) (Suc i * 2 + 2) = Inr (writeUint16 (ws ! Suc i))"
    using assms by (intro slice_Offs)
  moreover have "Suc i * 2 = i * 2 + 2" "Suc i * 2 + 2 = i * 2 + 4"
    by simp_all
  ultimately have b: "subslice (concat (map writeUint16 ws)) (i * 2 + 2) (i * 2 + 4) = Inr (writeUint16 (ws ! Suc i))"
    by (simp only:)
  show ?thesis
    unfolding GetItem_def Let_def
    by (simp only: ItemArray.select_convs a b sum.case prod.case readUint16_writeUint16)
qed

lemma Len_offsets: "Len \<lparr>Items = bs, Offs = concat (map writeUint16 ws)\<rparr> = int (length ws) - 1"
  by (simp add: Len_def concat_writeUint16_length)

lemma drop_concat_prefix:
  "i \<le> length xs \<Longrightarrow> drop (sum_list (map length (take i xs))) (concat xs) = concat (drop i xs)"
proof (induction xs arbitrary: i)
  case Nil
  then show ?case by simp
next
  case (Cons x xs)
  then show ?case by (cases i) simp_all
qed

lemma sum_take_le: "sum_list (map length (take i xs)) \<le> sum_list (map length (xs :: 'a list list))"
proof -
  have "sum_list (map length xs) = sum_list (map length (take i xs)) + sum_list (map length (drop i xs))"
    by (metis append_take_drop_id map_append sum_list_append)
  then show ?thesis by simp
qed

lemma slice_concat_item:
  assumes "i < length xs"
  shows "subslice (concat xs) (sum_list (map length (take i xs))) (sum_list (map length (take (Suc i) xs)))
           = Inr (xs ! i)"
proof -
  let ?a = "sum_list (map length (take i xs))"
  have t: "take (Suc i) xs = take i xs @ [xs ! i]"
    using assms by (rule take_Suc_conv_app_nth)
  have b: "sum_list (map length (take (Suc i) xs)) = ?a + length (xs ! i)"
    by (simp add: t)
  have le: "sum_list (map length (take (Suc i) xs)) \<le> length (concat xs)"
    using sum_take_le [of "Suc i" xs] by (simp add: length_concat)
  have "drop ?a (concat xs) = concat (drop i xs)"
    using assms by (intro drop_concat_prefix) simp
  also have "\<dots> = xs ! i @ concat (drop (Suc i) xs)"
    using assms by (simp add: Cons_nth_drop_Suc [symmetric])
  finally have "take (length (xs ! i)) (drop ?a (concat xs)) = xs ! i"
    by simp
  with le show ?thesis
    by (simp add: subslice_def b)
qed

lemma unat_of_nat_16: "m < 65536 \<Longrightarrow> unat (of_nat m :: uint16) = m"
  by (simp add: unat_of_nat)

lemma collect_Inr: "collect (map Inr xs) = Inr xs"
  by (induction xs) simp_all

lemma collect_nth:
  assumes "\<And>i. i < length xs \<Longrightarrow> f i = Inr (xs ! i)"
  shows "collect (map f [0 ..< length xs]) = Inr xs"
proof -
  have "map f [0 ..< length xs] = map Inr xs"
    using assms by (intro nth_equalityI) simp_all
  then show ?thesis by (simp add: collect_Inr)
qed

lemma GetItem_keys:
  assumes "sum_list (map length keys) < 65536" and i: "i < length keys"
  shows "GetItem \<lparr>Items = concat keys, Offs = concat (map writeUint16 (offsetsFrom 0 keys))\<rparr> i
           = Inr (keys ! i)"
proof -
  have a: "sum_list (map length (take i keys)) < 65536"
    using sum_take_le [of i keys] assms(1) by simp
  have b: "sum_list (map length (take (Suc i) keys)) < 65536"
    using sum_take_le [of "Suc i" keys] assms(1) by simp
  have "unat (offsetsFrom 0 keys ! i) = sum_list (map length (take i keys))"
    using i a by (simp add: offsetsFrom_nth unat_of_nat_16)
  moreover have "unat (offsetsFrom 0 keys ! Suc i) = sum_list (map length (take (Suc i) keys))"
    using i b by (simp only: offsetsFrom_nth Suc_leI unat_of_nat_16 add_0)
  ultimately show ?thesis
    using i slice_concat_item [OF i]
    by (simp only: GetItem_offsets offsetsFrom_length Suc_less_eq)
qed

lemma allItems_keys:
  assumes "sum_list (map length keys) < 65536"
  shows "allItems \<lparr>Items = concat keys, Offs = concat (map writeUint16 (offsetsFrom 0 keys))\<rparr> = Inr keys"
proof -
  let ?arr = "\<lparr>Items = concat keys, Offs = concat (map writeUint16 (offsetsFrom 0 keys))\<rparr>"
  have n: "nat (Len ?arr) = length keys"
    by (simp add: Len_offsets offsetsFrom_length)
  have "GetItem ?arr i = Inr (keys ! i)" if "i < length keys" for i
    using assms that by (rule GetItem_keys)
  then show ?thesis
    unfolding allItems_def n by (rule collect_nth)
qed

lemma addressOffsets_eq:
  "addressOffsets pos cnt
     = concat (map writeUint16 (map (\<lambda>k. pos + of_nat (k * addrSize)) [0 ..< Suc cnt]))"
proof (induction cnt arbitrary: pos)
  case 0
  then show ?case by simp
next
  case (Suc cnt)
  have "[0 ..< Suc (Suc cnt)] = 0 # [Suc 0 ..< Suc (Suc cnt)]"
    by (rule upt_conv_Cons) simp
  also have "[Suc 0 ..< Suc (Suc cnt)] = map Suc [0 ..< Suc cnt]"
    by (rule map_Suc_upt [symmetric])
  finally have "[0 ..< Suc (Suc cnt)] = 0 # map Suc [0 ..< Suc cnt]" .
  then have "map (\<lambda>k. pos + of_nat (k * addrSize)) [0 ..< Suc (Suc cnt)]
      = pos # map (\<lambda>k. pos + of_nat addrSize + of_nat (k * addrSize)) [0 ..< Suc cnt]"
    by (simp add: add.assoc algebra_simps del: upt_Suc)
  then show ?case
    by (simp add: Suc.IH del: upt_Suc)
qed

lemma sum_list_const_length:
  "\<forall>a \<in> set xs. length a = c \<Longrightarrow> sum_list (map length xs) = c * length xs"
  by (induction xs) simp_all

lemma allItems_values:
  assumes len: "\<forall>a \<in> set addrs. length a = ByteLen"
    and small: "length addrs * addrSize < 65536"
  shows "allItems \<lparr>Items = concat addrs, Offs = offsetsForAddressArray (concat addrs)\<rparr> = Inr addrs"
proof -
  let ?n = "length addrs"
  let ?ws = "map (\<lambda>k. of_nat (k * addrSize) :: uint16) [0 ..< Suc ?n]"
  have total: "length (concat addrs) = ByteLen * ?n"
    using sum_list_const_length [OF len] by (simp add: length_concat)
  then have cnt: "length (concat addrs) div addrSize = ?n"
    by (simp add: addrSize_def ByteLen_def)
  have offs: "offsetsForAddressArray (concat addrs) = concat (map writeUint16 ?ws)"
    unfolding offsetsForAddressArray_def cnt addressOffsets_eq by simp
  let ?arr = "\<lparr>Items = concat addrs, Offs = concat (map writeUint16 ?ws)\<rparr>"
  have n: "nat (Len ?arr) = ?n"
    by (simp only: Len_offsets) simp
  have "GetItem ?arr i = Inr (addrs ! i)" if i: "i < ?n" for i
  proof -
    have pre: "sum_list (map length (take k addrs)) = k * addrSize" if "k \<le> ?n" for k
    proof -
      have "\<forall>a \<in> set (take k addrs). length a = ByteLen"
        using len by (meson in_set_takeD)
      from sum_list_const_length [OF this] that show ?thesis
        by (simp add: addrSize_def)
    qed
    have a: "i * addrSize < 65536"
    proof -
      have "i * addrSize \<le> ?n * addrSize" using i by (intro mult_le_mono1) simp
      then show ?thesis using small by (rule le_less_trans)
    qed
    have b: "Suc i * addrSize < 65536"
    proof -
      have "Suc i * addrSize \<le> ?n * addrSize" using i by (intro mult_le_mono1) simp
      then show ?thesis using small by (rule le_less_trans)
    qed
    have w0: "?ws ! i = of_nat (i * addrSize)"
      using i by (simp only: nth_map_upt [of i "Suc ?n" 0] length_upt) simp
    have w1: "?ws ! Suc i = of_nat (Suc i * addrSize)"
    proof -
      have "Suc i < Suc ?n - 0" using i by simp
      then have "?ws ! Suc i = of_nat ((0 + Suc i) * addrSize)"
        by (rule nth_map_upt)
      then show ?thesis by simp
    qed
    have l: "Suc i < length ?ws" using i by simp
    have "GetItem ?arr i = subslice (concat addrs) (unat (?ws ! i)) (unat (?ws ! Suc i))"
      by (rule GetItem_offsets [OF l])
    also have "\<dots> = subslice (concat addrs) (i * addrSize) (Suc i * addrSize)"
      by (simp only: w0 w1 unat_of_nat_16 [OF a] unat_of_nat_16 [OF b])
    also have "\<dots> = subslice (concat addrs) (sum_list (map length (take i addrs)))
        (sum_list (map length (take (Suc i) addrs)))"
      using i by (simp only: pre [of i] pre [of "Suc i"] less_imp_le Suc_leI)
    also have "\<dots> = Inr (addrs ! i)"
      by (rule slice_concat_item [OF i])
    finally show ?thesis .
  qed
  then have "allItems ?arr = Inr addrs"
    unfolding allItems_def n by (rule collect_nth)
  then show ?thesis by (simp only: offs)
qed

lemma Serialize_message:
  assumes "length keys = length addrs"
  shows "Serialize prefixSz keys addrs subtrees level =
     Inr \<lparr>KeyItems = concat keys, KeyOffsets = offsetsFrom 0 keys, AddressArray = concat addrs,
          SubtreeCounts = (if 0 <s level then Some (writeCountArray subtrees) else None),
          TreeCount = (if 0 <s level then sumSubtrees subtrees else of_nat (length keys)),
          TreeLevel = ucast level\<rparr>"
  using assms
  by (simp add: Serialize_def estimateAddressMapSize_def assertTrue_def Let_def AddressMapStart_def
      writeItemBytes_def writeItemOffsets_def)

lemma foldl_plus: "foldl (+) a xs = a + sum_list (xs :: uint64 list)"
  by (induction xs arbitrary: a) (simp_all add: add.assoc)

lemma sumSubtrees_sum: "sumSubtrees subtrees = sum_list subtrees"
  by (simp add: sumSubtrees_def foldl_plus)

lemma unat_sum_list: "unat (sum_list (xs :: uint64 list)) = sum_list (map unat xs) mod 2 ^ 64"
proof (induction xs)
  case Nil
  then show ?case by simp
next
  case (Cons x xs)
  have "unat (x + sum_list xs) = (unat x + unat (sum_list xs)) mod 2 ^ 64"
    by (simp add: unat_word_ariths)
  also have "\<dots> = (unat x + sum_list (map unat xs) mod 2 ^ 64) mod 2 ^ 64"
    by (simp only: Cons.IH)
  also have "\<dots> = (unat x + sum_list (map unat xs)) mod 2 ^ 64"
    by (rule mod_add_right_eq)
  finally show ?case by simp
qed


lemma level_byte:
  assumes "(level :: go_int) \<le> 255"
  shows "ucast (ucast level :: byte) = level"
proof -
  from assms have u: "unat level < 256" by (simp add: word_le_nat_alt)
  then have "unat (ucast level :: byte) = unat level"
    by (simp add: unat_ucast_byte)
  then have "unat (ucast (ucast level :: byte) :: uint64) = unat level"
    by (simp only: unat_ucast_up)
  then show ?thesis by (simp add: word_unat_eq_iff)
qed

lemma count_of_message:
  "getAddressMapCount \<lparr>KeyItems = ki, KeyOffsets = offsetsFrom 0 keys, AddressArray = aa,
      SubtreeCounts = sc, TreeCount = tc, TreeLevel = lv\<rparr> = of_nat (length keys)"
  by (simp add: getAddressMapCount_def KeyOffsetsLength_def offsetsFrom_length)

lemma getAddressMapCount_Serialize:
  assumes "length keys = length addrs"
  shows "map_sum id getAddressMapCount (Serialize prefixSz keys addrs subtrees level)
           = Inr (of_nat (length keys))"
  by (simp only: Serialize_message [OF assms] count_of_message map_sum.simps)

text \<open>
  C4. With as many keys as addresses, \<open>Serialize\<close> returns a message. For a level above
  0 its tree count is the \<open>uint64\<close> sum of the subtree counts (their sum as numbers
  when that fits 64 bits), and the subtree counts are recorded as a varint region that
  decodes to them. Otherwise its tree count is the number of keys and no region of
  subtree counts is written. \<open>getAddressMapTreeCount\<close> returns the recorded tree count.
\<close>

theorem recorded_tree_count:
  assumes "length keys = length addrs"
  shows "\<exists>m. Serialize prefixSz keys addrs subtrees level = Inr m \<and>
     (0 <s level \<longrightarrow>
        TreeCount m = sum_list subtrees \<and>
        (sum_list (map unat subtrees) < 2 ^ 64 \<longrightarrow>
           unat (TreeCount m) = sum_list (map unat subtrees)) \<and>
        SubtreeCounts m = Some (writeCountArray subtrees) \<and>
        decodeVarints (SubtreeCountsBytes m) (length subtrees) = Inr subtrees) \<and>
     (\<not> 0 <s level \<longrightarrow>
        TreeCount m = of_nat (length keys) \<and>
        (length keys < 2 ^ 64 \<longrightarrow> unat (TreeCount m) = length keys) \<and>
        SubtreeCounts m = None \<and> SubtreeCountsBytes m = []) \<and>
     getAddressMapTreeCount m = TreeCount m"
proof (cases "0 <s level")
  case True
  then show ?thesis
    by (simp add: Serialize_message [OF assms] sumSubtrees_sum unat_sum_list
        SubtreeCountsBytes_def decodeVarints_writeCountArray getAddressMapTreeCount_def)
next
  case False
  then show ?thesis
    by (simp add: Serialize_message [OF assms] SubtreeCountsBytes_def getAddressMapTreeCount_def
        unat_of_nat)
qed

theorem recorded_tree_count_witness:
  "length [[1 :: byte], [2]] = length [replicate 20 (7 :: byte), replicate 20 8] \<and>
   (\<exists>m. Serialize 4 [[1], [2]] [replicate 20 7, replicate 20 8] [3, 300] 1 = Inr m \<and>
      0 <s (1 :: go_int) \<and> TreeCount m = 303 \<and> unat (TreeCount m) = 303 \<and>
      decodeVarints (SubtreeCountsBytes m) (length [3 :: uint64, 300]) = Inr [3, 300] \<and>
      getAddressMapTreeCount m = 303) \<and>
   (\<exists>m. Serialize 4 [[1], [2]] [replicate 20 7, replicate 20 8] [] 0 = Inr m \<and>
      \<not> 0 <s (0 :: go_int) \<and> TreeCount m = 2 \<and> SubtreeCounts m = None \<and>
      getAddressMapTreeCount m = 2)"
proof -
  have l: "length [[1 :: byte], [2]] = length [replicate 20 (7 :: byte), replicate 20 8]"
    by simp
  from recorded_tree_count [OF l, of 4 "[3, 300]" 1] recorded_tree_count [OF l, of 4 "[]" 0]
  show ?thesis by (auto simp: word_sless_alt)
qed

text \<open>
  C5, as the code has it. With as many keys as addresses, the key-offsets vector of the
  serialized message has one entry more than there are keys; when the keys hold fewer
  than 65536 bytes in all, key \<open>i\<close> is the subslice of the key bytes between offsets \<open>i\<close>
  and \<open>i + 1\<close>; \<open>getAddressMapCount\<close> returns the number of keys as a \<open>uint16\<close>, which
  is the number of keys when there are fewer than 65536.
\<close>

theorem offsets_and_count:
  assumes "length keys = length addrs"
  shows "\<exists>m. Serialize prefixSz keys addrs subtrees level = Inr m \<and>
     length (KeyOffsets m) = length keys + 1 \<and>
     KeyOffsetsLength m = int (length keys) + 1 \<and>
     (sum_list (map length keys) < 65536 \<longrightarrow>
        (\<forall>i < length keys. GetItem (getAddressMapKeys m) i = Inr (keys ! i))) \<and>
     getAddressMapCount m = of_nat (length keys) \<and>
     (length keys < 65536 \<longrightarrow> unat (getAddressMapCount m) = length keys)"
proof -
  let ?m = "\<lparr>KeyItems = concat keys, KeyOffsets = offsetsFrom 0 keys, AddressArray = concat addrs,
          SubtreeCounts = (if 0 <s level then Some (writeCountArray subtrees) else None),
          TreeCount = (if 0 <s level then sumSubtrees subtrees else of_nat (length keys)),
          TreeLevel = ucast level\<rparr>"
  have s: "Serialize prefixSz keys addrs subtrees level = Inr ?m"
    by (rule Serialize_message [OF assms])
  have k: "getAddressMapKeys ?m
      = \<lparr>Items = concat keys, Offs = concat (map writeUint16 (offsetsFrom 0 keys))\<rparr>"
    by (simp add: getAddressMapKeys_def KeyItemsBytes_def getAddressMapKeyOffsets_def)
  have c: "getAddressMapCount ?m = of_nat (length keys)"
    by (rule count_of_message)
  have "length (KeyOffsets ?m) = length keys + 1" "KeyOffsetsLength ?m = int (length keys) + 1"
    by (simp_all add: offsetsFrom_length KeyOffsetsLength_def)
  moreover have "sum_list (map length keys) < 65536 \<longrightarrow>
        (\<forall>i < length keys. GetItem (getAddressMapKeys ?m) i = Inr (keys ! i))"
    unfolding k using GetItem_keys [of keys] by blast
  moreover have "length keys < 65536 \<longrightarrow> unat (getAddressMapCount ?m) = length keys"
    unfolding c by (simp add: unat_of_nat_16)
  ultimately show ?thesis
    using s c by blast
qed

theorem offsets_and_count_witness:
  "length [[1 :: byte, 2], [3]] = length [replicate 20 (7 :: byte), replicate 20 8] \<and>
   sum_list (map length [[1 :: byte, 2], [3]]) < 65536 \<and>
   length [[1 :: byte, 2], [3]] < 65536 \<and>
   (\<exists>m. Serialize 4 [[1, 2], [3]] [replicate 20 7, replicate 20 8] [] 0 = Inr m \<and>
      length (KeyOffsets m) = 3 \<and>
      GetItem (getAddressMapKeys m) 0 = Inr [1, 2] \<and>
      GetItem (getAddressMapKeys m) 1 = Inr [3] \<and>
      getAddressMapCount m = 2)"
proof -
  have l: "length [[1 :: byte, 2], [3]] = length [replicate 20 (7 :: byte), replicate 20 8]"
    by simp
  from offsets_and_count [OF l, of 4 "[]" 0] show ?thesis
    by (auto simp: less_Suc_eq)
qed

text \<open>
  A message built from 65536 keys, on which \<open>getAddressMapCount\<close> returns 0.
\<close>

theorem count_counterexample:
  "length (replicate 65536 ([] :: byte list)) = 65536 \<and>
   map_sum id getAddressMapCount
     (Serialize 4 (replicate 65536 []) (replicate 65536 []) [] 0) = Inr 0"
proof -
  have l: "length (replicate 65536 ([] :: byte list)) = length (replicate 65536 ([] :: byte list))"
    by (rule refl)
  have z: "(of_nat 65536 :: uint16) = 0" by simp
  show ?thesis
    using getAddressMapCount_Serialize [OF l, of 4 "[]" 0]
    by (simp only: length_replicate z simp_thms)
qed


text \<open>
  C1, as the code has it. For a level from 0 to 255, keys of fewer than 65536 bytes in
  all, as many addresses as keys, each of \<open>ByteLen\<close> bytes and of fewer than 65536 bytes
  in all, and, above level 0, one subtree count per key: \<open>Serialize\<close> returns a message
  whose decoded keys, addresses, subtree counts (above level 0) and level are the ones
  given.
\<close>

theorem codec_round_trip:
  assumes "length keys = length addrs"
    and "level \<le> 255"
    and "sum_list (map length keys) < 65536"
    and "\<forall>a \<in> set addrs. length a = ByteLen"
    and "length addrs * addrSize < 65536"
    and "0 <s level \<longrightarrow> length subtrees = length keys"
  shows "\<exists>m. Serialize prefixSz keys addrs subtrees level = Inr m \<and>
     allItems (getAddressMapKeys m) = Inr keys \<and>
     allItems (getAddressMapValues m) = Inr addrs \<and>
     (0 <s level \<longrightarrow> getAddressMapSubtrees m = Inr subtrees) \<and>
     getAddressMapTreeLevel m = level"
proof -
  let ?m = "\<lparr>KeyItems = concat keys, KeyOffsets = offsetsFrom 0 keys, AddressArray = concat addrs,
          SubtreeCounts = (if 0 <s level then Some (writeCountArray subtrees) else None),
          TreeCount = (if 0 <s level then sumSubtrees subtrees else of_nat (length keys)),
          TreeLevel = ucast level\<rparr>"
  have s: "Serialize prefixSz keys addrs subtrees level = Inr ?m"
    by (rule Serialize_message [OF assms(1)])
  have "getAddressMapKeys ?m
      = \<lparr>Items = concat keys, Offs = concat (map writeUint16 (offsetsFrom 0 keys))\<rparr>"
    by (simp add: getAddressMapKeys_def KeyItemsBytes_def getAddressMapKeyOffsets_def)
  then have k: "allItems (getAddressMapKeys ?m) = Inr keys"
    using allItems_keys [OF assms(3)] by simp
  have "getAddressMapValues ?m
      = \<lparr>Items = concat addrs, Offs = offsetsForAddressArray (concat addrs)\<rparr>"
    by (simp add: getAddressMapValues_def AddressArrayBytes_def Let_def)
  then have v: "allItems (getAddressMapValues ?m) = Inr addrs"
    using allItems_values [OF assms(4) assms(5)] by simp
  have "length addrs * 20 < 65536"
    using assms(5) by (simp add: addrSize_def ByteLen_def)
  then have n: "length keys < 65536"
    using assms(1) by simp
  have c: "unat (getAddressMapCount ?m) = length keys"
    unfolding count_of_message by (rule unat_of_nat_16 [OF n])
  have t: "0 <s level \<longrightarrow> getAddressMapSubtrees ?m = Inr subtrees"
  proof
    assume p: "0 <s level"
    with assms(6) have "length keys = length subtrees" by simp
    with p show "getAddressMapSubtrees ?m = Inr subtrees"
      unfolding getAddressMapSubtrees_def c
      by (simp add: SubtreeCountsBytes_def decodeVarints_writeCountArray)
  qed
  have l: "getAddressMapTreeLevel ?m = level"
    by (simp add: getAddressMapTreeLevel_def level_byte [OF assms(2)])
  from s k v t l show ?thesis by blast
qed

theorem codec_round_trip_witness:
  "length [[1 :: byte, 2], [3]] = length [replicate 20 (7 :: byte), replicate 20 8] \<and>
   (1 :: go_int) \<le> 255 \<and>
   sum_list (map length [[1 :: byte, 2], [3]]) < 65536 \<and>
   length (replicate 20 (7 :: byte)) = ByteLen \<and> length (replicate 20 (8 :: byte)) = ByteLen \<and>
   length [replicate 20 (7 :: byte), replicate 20 8] * addrSize < 65536 \<and>
   (0 <s (1 :: go_int) \<and> length [5 :: uint64, 300] = length [[1 :: byte, 2], [3]]) \<and>
   (\<exists>m. Serialize 4 [[1, 2], [3]] [replicate 20 7, replicate 20 8] [5, 300] 1 = Inr m \<and>
      allItems (getAddressMapKeys m) = Inr [[1, 2], [3]] \<and>
      allItems (getAddressMapValues m) = Inr [replicate 20 7, replicate 20 8] \<and>
      getAddressMapSubtrees m = Inr [5, 300] \<and>
      getAddressMapTreeLevel m = 1)"
proof -
  have h1: "length [[1 :: byte, 2], [3]] = length [replicate 20 (7 :: byte), replicate 20 8]"
    by simp
  have h2: "(1 :: go_int) \<le> 255" by simp
  have h3: "sum_list (map length [[1 :: byte, 2], [3]]) < 65536" by simp
  have h4: "\<forall>a \<in> set [replicate 20 (7 :: byte), replicate 20 8]. length a = ByteLen"
    by (simp add: ByteLen_def)
  have h5: "length [replicate 20 (7 :: byte), replicate 20 8] * addrSize < 65536"
    by (simp add: addrSize_def ByteLen_def)
  have p: "0 <s (1 :: go_int)" by (simp add: word_sless_alt)
  have h6: "0 <s (1 :: go_int) \<longrightarrow> length [5 :: uint64, 300] = length [[1 :: byte, 2], [3]]"
    by simp
  from codec_round_trip [OF h1 h2 h3 h4 h5 h6, of 4] p h1 h2 h3 h4 h5 show ?thesis
    by auto
qed

text \<open>
  A level that does not come back: 256 is stored in the level byte as 0.
\<close>

theorem level_counterexample:
  "map_sum id getAddressMapTreeLevel (Serialize 4 [] [] [] 256) = Inr 0 \<and> (0 :: go_int) \<noteq> 256"
  by (simp add: Serialize_message getAddressMapTreeLevel_def)


section \<open>Properties of Truncate\<close>

lemma storeCall_Inr: "storeCall v fs = (Inr x, fs') \<Longrightarrow> x = v"
  by (auto simp: storeCall_def split: list.splits if_splits)

lemma storeCall_nofault: "storeCall v [] = (Inr v, [])"
  by (simp add: storeCall_def)

lemma putIndexes_Inr:
  "putIndexes e names idxSet fs = (Inr idxSet', fs') \<Longrightarrow>
   idxSet' = (\<lambda>n. if n \<in> set names then Some e else idxSet n)"
proof (induction names arbitrary: idxSet fs)
  case Nil
  then show ?case by simp
next
  case (Cons name names)
  from Cons.prems obtain mid fs1 where
    p: "PutIndex idxSet name e fs = (Inr mid, fs1)"
    and r: "putIndexes e names mid fs1 = (Inr idxSet', fs')"
    by (auto split: prod.splits sum.splits)
  from p have "mid = idxSet(name \<mapsto> e)"
    unfolding PutIndex_def by (rule storeCall_Inr)
  with Cons.IH [OF r] show ?case by auto
qed

lemma putIndexes_nofault:
  "putIndexes e names idxSet [] = (Inr (\<lambda>n. if n \<in> set names then Some e else idxSet n), [])"
proof (induction names arbitrary: idxSet)
  case Nil
  then show ?case by simp
next
  case (Cons name names)
  show ?case
    by (auto simp: PutIndex_def storeCall_nofault Cons.IH)
qed

lemma truncate_Inr:
  assumes "truncate table sch fs = (Inr newTable, fs')"
  shows "newTable = truncated table sch"
proof -
  from assms obtain emptyIdx fs1 idxSet fs2 idxSet' fs3 where
    a: "NewEmptyIndex sch fs = (Inr emptyIdx, fs1)"
    and b: "GetIndexSet table fs1 = (Inr idxSet, fs2)"
    and c: "putIndexes emptyIdx (AllIndexes sch) idxSet fs2 = (Inr idxSet', fs3)"
    and d: "NewTable sch emptyIdx idxSet' None fs3 = (Inr newTable, fs')"
    unfolding truncate_def by (auto split: prod.splits sum.splits)
  from a have e: "emptyIdx = Index 0"
    unfolding NewEmptyIndex_def by (rule storeCall_Inr)
  from b have i: "idxSet = t_indexSet table"
    unfolding GetIndexSet_def by (rule storeCall_Inr)
  from d have "newTable = \<lparr>t_schema = sch, t_rowData = emptyIdx, t_indexSet = idxSet', t_autoInc = None\<rparr>"
    unfolding NewTable_def by (rule storeCall_Inr)
  moreover have "idxSet' =
      (\<lambda>n. if n \<in> set (AllIndexes sch) then Some (Index 0) else t_indexSet table n)"
    using putIndexes_Inr [OF c] unfolding e i .
  ultimately show ?thesis
    by (simp add: truncated_def e)
qed

lemma truncate_nofault: "truncate table sch [] = (Inr (truncated table sch), [])"
  by (simp add: truncate_def NewEmptyIndex_def GetIndexSet_def NewTable_def storeCall_nofault
      putIndexes_nofault truncated_def)

lemma map_of_putEntry: "map_of (putEntry name table root) name = Some table"
  by (induction root) auto

lemma map_of_putEntry_other: "n \<noteq> name \<Longrightarrow> map_of (putEntry name table root) n = map_of root n"
  by (induction root) auto

lemma workingRoot_Inr:
  "workingRoot t st = (Inr root, st') \<Longrightarrow> root = rootOf t st \<and> s_root st' = s_root st"
  by (auto simp: workingRoot_def getRoot_def db_GetRoot_def rootOf_def
      split: option.splits prod.splits dest: storeCall_Inr)

lemma DoltTable_Inr:
  "DoltTable t st = (Inr table, st') \<Longrightarrow>
   map_of (rootOf t st) (tableName t) = Some table \<and> s_root st' = s_root st"
proof -
  assume a: "DoltTable t st = (Inr table, st')"
  then obtain root st1 fs where
    w: "workingRoot t st = (Inr root, st1)"
    and g: "GetTable root (tableName t) (s_faults st1) = (Inr (Some table), fs)"
    and s: "st' = st1\<lparr>s_faults := fs\<rparr>"
    unfolding DoltTable_def by (auto split: prod.splits sum.splits option.splits)
  from g have "Some table = map_of root (tableName t)"
    unfolding GetTable_def by (rule storeCall_Inr)
  with workingRoot_Inr [OF w] s show ?thesis by simp
qed

lemma Truncate_Inr:
  assumes "Truncate t st = (Inr numOfRows, st')"
  shows "\<exists>table. map_of (rootOf t st) (tableName t) = Some table \<and>
           numOfRows = Count (t_rowData table) \<and>
           s_root st' = putEntry (tableName t) (truncated table (t_schema table)) (s_root st)"
proof -
  from assms obtain table st1 where d: "DoltTable t st = (Inr table, st1)"
    unfolding Truncate_def by (auto split: prod.splits sum.splits)
  from assms d obtain sch fs2 where g: "GetSchema table (s_faults st1) = (Inr sch, fs2)"
    unfolding Truncate_def by (auto split: prod.splits sum.splits)
  from assms d g obtain rowData fs3 where r: "GetRowData table fs2 = (Inr rowData, fs3)"
    unfolding Truncate_def by (auto split: prod.splits sum.splits)
  from assms d g r obtain newTable fs4 where tr: "truncate table sch fs3 = (Inr newTable, fs4)"
    unfolding Truncate_def by (auto simp: Let_def split: prod.splits sum.splits)
  from assms d g r tr obtain root st5 where gr: "getRoot t (st1\<lparr>s_faults := fs4\<rparr>) = (Inr root, st5)"
    unfolding Truncate_def by (auto simp: Let_def split: prod.splits sum.splits)
  from assms d g r tr gr obtain newRoot fs6 where
    pt: "PutTable root (tableName t) newTable (s_faults st5) = (Inr newRoot, fs6)"
    unfolding Truncate_def by (auto simp: Let_def split: prod.splits sum.splits)
  from assms d g r tr gr pt have
    sr: "setRoot t newRoot (st5\<lparr>s_faults := fs6\<rparr>) = (None, st')" and n: "numOfRows = Count rowData"
    unfolding Truncate_def by (auto simp: Let_def split: prod.splits sum.splits option.splits)
  from DoltTable_Inr [OF d] have m: "map_of (rootOf t st) (tableName t) = Some table"
    and r1: "s_root st1 = s_root st" by simp_all
  from g have sch: "sch = t_schema table"
    unfolding GetSchema_def by (rule storeCall_Inr)
  from r have rd: "rowData = t_rowData table"
    unfolding GetRowData_def by (rule storeCall_Inr)
  from truncate_Inr [OF tr] have nt: "newTable = truncated table sch" .
  from gr have root: "root = s_root st"
    using r1 by (auto simp: getRoot_def db_GetRoot_def split: prod.splits dest: storeCall_Inr)
  from pt have nr: "newRoot = putEntry (tableName t) newTable root"
    unfolding PutTable_def by (rule storeCall_Inr)
  from sr have "s_root st' = newRoot"
    by (auto simp: setRoot_def db_SetRoot_def split: prod.splits sum.splits)
  with m n sch rd nt root nr show ?thesis by simp
qed

lemma Truncate_nofault:
  assumes "s_faults st = []" and "map_of (rootOf t st) (tableName t) = Some table"
  shows "Truncate t st =
     (Inr (Count (t_rowData table)),
      st\<lparr>s_root := putEntry (tableName t) (truncated table (t_schema table)) (s_root st)\<rparr>)"
proof -
  have w: "workingRoot t st = (Inr (rootOf t st), st)"
    using assms(1)
    by (cases "lockedToRoot t")
      (simp_all add: workingRoot_def getRoot_def db_GetRoot_def rootOf_def storeCall_nofault)
  have d: "DoltTable t st = (Inr table, st)"
    using assms by (simp add: DoltTable_def w GetTable_def storeCall_nofault)
  show ?thesis
    using assms(1)
    by (simp add: Truncate_def d GetSchema_def GetRowData_def storeCall_nofault truncate_nofault
        getRoot_def db_GetRoot_def PutTable_def setRoot_def db_SetRoot_def Let_def)
qed

lemma sint_small:
  assumes "unat (w :: uint64) < 2 ^ 63"
  shows "sint w = int (unat w)"
proof -
  from assms have "int (unat w) < int (2 ^ 63)"
    by (simp only: of_nat_less_iff)
  then have "int (unat w) < 2 ^ 63"
    by (simp only: of_nat_power of_nat_numeral)
  then have u: "uint w < 2 ^ 63"
    by (simp only: of_nat_unat)
  have p: "0 \<le> uint w" by simp
  have nb: "\<not> bit (uint w) 63"
    using u p by (simp add: bit_iff_odd)
  have "sint w = signed_take_bit (LENGTH(64) - Suc 0) (uint w)"
    by (rule sint_uint)
  also have "\<dots> = signed_take_bit 63 (uint w)"
    by simp
  also have "\<dots> = take_bit 63 (uint w)"
    using nb by (rule signed_take_bit_eq_if_positive)
  also have "\<dots> = uint w"
    using u p by (simp add: take_bit_int_eq_self)
  finally show ?thesis by simp
qed


text \<open>
  C6. Whenever \<open>truncate\<close> returns a table, that table has an empty row tree, maps
  every index named in the given schema to an empty index, has the given schema and has
  no auto-increment value. Whenever \<open>Truncate\<close> returns without an error, it returns
  the row count \<open>rowData.Count()\<close> of the table it read, converted to \<open>int\<close> (the same
  number whenever it fits an \<open>int\<close>), and the session's root then holds, under the
  table's name, the truncation of that table made with the table's own schema, which
  keeps that schema. When no store call fails and the table exists, \<open>Truncate\<close> does
  return.
\<close>

theorem truncate_frame:
  "(truncate table sch fs = (Inr newTable, fs') \<longrightarrow>
      Empty (t_rowData newTable) \<and>
      (\<forall>name \<in> set (AllIndexes sch). \<exists>idx. t_indexSet newTable name = Some idx \<and> Empty idx) \<and>
      t_schema newTable = sch \<and>
      t_autoInc newTable = None) \<and>
   (Truncate t st = (Inr numOfRows, st') \<longrightarrow>
      (\<exists>tbl truncatedTbl.
         map_of (rootOf t st) (tableName t) = Some tbl \<and>
         numOfRows = Count (t_rowData tbl) \<and>
         (unat (Count (t_rowData tbl)) < 2 ^ 63 \<longrightarrow>
            sint numOfRows = int (unat (Count (t_rowData tbl)))) \<and>
         truncate tbl (t_schema tbl) [] = (Inr truncatedTbl, []) \<and>
         t_schema truncatedTbl = t_schema tbl \<and>
         map_of (s_root st') (tableName t) = Some truncatedTbl)) \<and>
   (s_faults st = [] \<and> map_of (rootOf t st) (tableName t) = Some table \<longrightarrow>
      (\<exists>st''. Truncate t st = (Inr (Count (t_rowData table)), st'')))"
proof -
  have A: "truncate table sch fs = (Inr newTable, fs') \<longrightarrow>
      Empty (t_rowData newTable) \<and>
      (\<forall>name \<in> set (AllIndexes sch). \<exists>idx. t_indexSet newTable name = Some idx \<and> Empty idx) \<and>
      t_schema newTable = sch \<and>
      t_autoInc newTable = None"
  proof
    assume "truncate table sch fs = (Inr newTable, fs')"
    then have "newTable = truncated table sch" by (rule truncate_Inr)
    then show "Empty (t_rowData newTable) \<and>
        (\<forall>name \<in> set (AllIndexes sch). \<exists>idx. t_indexSet newTable name = Some idx \<and> Empty idx) \<and>
        t_schema newTable = sch \<and>
        t_autoInc newTable = None"
      by (simp add: truncated_def Empty_def)
  qed
  have B: "Truncate t st = (Inr numOfRows, st') \<longrightarrow>
      (\<exists>tbl truncatedTbl.
         map_of (rootOf t st) (tableName t) = Some tbl \<and>
         numOfRows = Count (t_rowData tbl) \<and>
         (unat (Count (t_rowData tbl)) < 2 ^ 63 \<longrightarrow>
            sint numOfRows = int (unat (Count (t_rowData tbl)))) \<and>
         truncate tbl (t_schema tbl) [] = (Inr truncatedTbl, []) \<and>
         t_schema truncatedTbl = t_schema tbl \<and>
         map_of (s_root st') (tableName t) = Some truncatedTbl)"
  proof
    assume "Truncate t st = (Inr numOfRows, st')"
    from Truncate_Inr [OF this] obtain tbl where
      m: "map_of (rootOf t st) (tableName t) = Some tbl"
      and n: "numOfRows = Count (t_rowData tbl)"
      and r: "s_root st' = putEntry (tableName t) (truncated tbl (t_schema tbl)) (s_root st)"
      by blast
    have "map_of (s_root st') (tableName t) = Some (truncated tbl (t_schema tbl))"
      unfolding r by (rule map_of_putEntry)
    moreover have "unat (Count (t_rowData tbl)) < 2 ^ 63 \<longrightarrow>
              sint numOfRows = int (unat (Count (t_rowData tbl)))"
      unfolding n using sint_small by blast
    moreover have "t_schema (truncated tbl (t_schema tbl)) = t_schema tbl"
      by (simp add: truncated_def)
    ultimately show "\<exists>tbl truncatedTbl.
           map_of (rootOf t st) (tableName t) = Some tbl \<and>
           numOfRows = Count (t_rowData tbl) \<and>
           (unat (Count (t_rowData tbl)) < 2 ^ 63 \<longrightarrow>
              sint numOfRows = int (unat (Count (t_rowData tbl)))) \<and>
           truncate tbl (t_schema tbl) [] = (Inr truncatedTbl, []) \<and>
           t_schema truncatedTbl = t_schema tbl \<and>
           map_of (s_root st') (tableName t) = Some truncatedTbl"
      using m n truncate_nofault [of tbl "t_schema tbl"] by blast
  qed
  have C: "s_faults st = [] \<and> map_of (rootOf t st) (tableName t) = Some table \<longrightarrow>
      (\<exists>st''. Truncate t st = (Inr (Count (t_rowData table)), st''))"
    using Truncate_nofault [of st t table] by blast
  from A B C show ?thesis by blast
qed

theorem truncate_frame_witness:
  "(\<exists>newTable.
      truncate
        \<lparr>t_schema = \<lparr>sch_columns = [''id''], sch_indexes = [''idx_a'']\<rparr>, t_rowData = Index 5,
         t_indexSet = [''idx_a'' \<mapsto> Index 5], t_autoInc = Some 6\<rparr>
        \<lparr>sch_columns = [''id''], sch_indexes = [''idx_a'']\<rparr> [] = (Inr newTable, []) \<and>
      Empty (t_rowData newTable) \<and>
      t_indexSet newTable ''idx_a'' = Some (Index 0) \<and>
      t_schema newTable = \<lparr>sch_columns = [''id''], sch_indexes = [''idx_a'']\<rparr> \<and>
      t_autoInc newTable = None) \<and>
   (\<exists>st'.
      Truncate \<lparr>tableName = ''t'', lockedToRoot = None\<rparr>
        \<lparr>s_faults = [],
         s_root = [(''t'',
           \<lparr>t_schema = \<lparr>sch_columns = [''id''], sch_indexes = [''idx_a'']\<rparr>, t_rowData = Index 5,
            t_indexSet = [''idx_a'' \<mapsto> Index 5], t_autoInc = Some 6\<rparr>)]\<rparr>
        = (Inr 5, st') \<and>
      (\<exists>truncatedTbl. map_of (s_root st') ''t'' = Some truncatedTbl \<and>
         Empty (t_rowData truncatedTbl) \<and> t_autoInc truncatedTbl = None))"
proof -
  let ?sch = "\<lparr>sch_columns = [''id''], sch_indexes = [''idx_a'']\<rparr>"
  let ?tbl = "\<lparr>t_schema = ?sch, t_rowData = Index 5,
         t_indexSet = [''idx_a'' \<mapsto> Index 5], t_autoInc = Some 6\<rparr>"
  let ?t = "\<lparr>tableName = ''t'', lockedToRoot = None\<rparr>"
  let ?st = "\<lparr>s_faults = [], s_root = [(''t'', ?tbl)]\<rparr>"
  let ?new = "truncated ?tbl ?sch"
  let ?st' = "?st\<lparr>s_root := putEntry ''t'' ?new (s_root ?st)\<rparr>"
  have a: "truncate ?tbl ?sch [] = (Inr ?new, [])"
    by (rule truncate_nofault)
  have m: "map_of (rootOf ?t ?st) (tableName ?t) = Some ?tbl"
    by (simp add: rootOf_def)
  have b: "Truncate ?t ?st = (Inr 5, ?st')"
    using Truncate_nofault [of ?st ?t ?tbl] m by simp
  from truncate_frame [where table = ?tbl and sch = ?sch and fs = "[]" and newTable = ?new
      and fs' = "[]" and t = ?t and st = ?st and numOfRows = 5 and st' = ?st'] a b m
  show ?thesis
    by (auto simp: AllIndexes_def Empty_def truncated_def)
qed


end
